theory Spec2Isabelle
  imports Main
begin

section \<open>pspg: \<^verbatim>\<open>src/pgclient.c\<close>, execute a query and stage its result\<close>

text \<open>
  The development embeds the four functions of \<^verbatim>\<open>src/pgclient.c\<close>
  (\<^verbatim>\<open>push_row\<close>, \<^verbatim>\<open>column_type_class\<close>, \<^verbatim>\<open>field_info\<close>,
  \<^verbatim>\<open>pg_exec_query\<close>) and its three macros.

  Conventions of the embedding.
  \<^item> A C string is the list of its bytes before the terminating NUL, so a well-formed
    one holds no NUL byte (\<open>c_string\<close>); \<^verbatim>\<open>strlen\<close> is \<open>length\<close>.
  \<^item> \<^verbatim>\<open>int\<close> is 32 bits wide and \<^verbatim>\<open>size_t\<close> 64 bits (LP64). The sum \<^verbatim>\<open>size\<close>,
    which decides how much is allocated, has its conversions written out (\<open>to_int\<close>,
    \<open>to_size_t\<close>). The other counters are HOL integers: loop indices and \<^verbatim>\<open>nrows\<close> stay
    below the bounds the code tests, and the widths of the 8-bit branch are at most the
    length of the text (\<open>field_info_loop_bound\<close>).
  \<^item> A \<^verbatim>\<open>char *\<close> into the row payload is an offset into that allocation; the
    allocation is a list of cells, \<open>None\<close> for a byte that was never written.
  \<^item> An array is a function or a map from the index (\<open>None\<close> for an element that was
    never written): the 1024 entries of each table of \<^verbatim>\<open>PrintDataDesc\<close>, indexed below
    the column count, which line 179 keeps at 1024 or less; the 1000 slots of a bucket,
    where the model checks the index; the pointers of a row.
  \<^item> Buckets are linked and updated through pointers, so they live in an explicit heap:
    a list of buckets, the address of a bucket being its index. \<^verbatim>\<open>malloc\<close> extends
    the list, so a new bucket never aliases an old one.
  \<^item> What the C standard leaves undefined (a write past an allocation, a dereference of
    a pointer that is no bucket) is a value of its own: \<open>None\<close> in the small functions,
    \<open>Undefined_behaviour\<close> in the pipeline.
\<close>

subsection \<open>Data model (\<^verbatim>\<open>pspg.h\<close>)\<close>

type_synonym Oid = nat

type_synonym addr = nat

record Options =
  force8bit :: bool
  query :: string

text \<open>
  \<^verbatim>\<open>RowType\<close>: the field count and the table of pointers; \<open>payload\<close> is the
  allocation (\<^verbatim>\<open>locbuf\<close>) all pointers of the row point into. A field name that two
  structs share carries a prefix (\<open>r_\<close> here, \<open>pd_\<close> in \<^verbatim>\<open>PrintDataDesc\<close>).
\<close>

record RowType =
  r_nfields :: int
  r_fields :: "nat \<rightharpoonup> nat"
  payload :: "char option list"

record RowBucketType =
  nrows :: int
  rows :: "nat \<rightharpoonup> RowType"
  multilines :: "nat \<rightharpoonup> bool"
  allocated :: bool
  next_bucket :: "addr option"

record PrintDataDesc =
  pd_nfields :: int
  has_header :: bool
  types :: "nat \<Rightarrow> char"
  widths :: "nat \<Rightarrow> int"
  pd_multilines :: "nat \<Rightarrow> bool"

text \<open>
  Everything \<^verbatim>\<open>pg_exec_query\<close> can change: the bucket heap, the caller's
  \<^verbatim>\<open>pdesc\<close> and \<^verbatim>\<open>*err\<close> (the text it points to, \<open>None\<close> for NULL), the global
  buffer \<^verbatim>\<open>errmsg\<close>, whether libpq's result and connection are still held, and the number
  of calls of \<^verbatim>\<open>malloc\<close> so far.
\<close>

record world =
  heap :: "RowBucketType list"
  pdesc :: PrintDataDesc
  err :: "string option"
  errmsg :: string
  result_open :: bool
  conn_open :: bool
  mallocs :: nat

text \<open>
  Modelled from the spec: \<^verbatim>\<open>utf_string_dsplen_multiline\<close> is a function of
  \<^verbatim>\<open>unicode.c\<close>, not of \<^verbatim>\<open>pgclient.c\<close>. The spec calls the width calculator a pure
  function from a text to a width and a multiline flag, so it is a function of that shape:
  its arguments are the string, \<^verbatim>\<open>max_bytes\<close> and \<^verbatim>\<open>first_only\<close>, its results the
  returned width and the value it stores into \<^verbatim>\<open>*multiline\<close>. The counts it stores into
  \<^verbatim>\<open>digits\<close> and \<^verbatim>\<open>others\<close> are never read by \<^verbatim>\<open>pgclient.c\<close>.
\<close>

type_synonym dsplen = "string \<Rightarrow> nat \<Rightarrow> bool \<Rightarrow> int \<times> bool"

text \<open>
  The collaborators the function only reads: the answers of libpq (of \<^verbatim>\<open>PQerrorMessage\<close>
  after a failed connection and after a failed query), whether the n-th call of
  \<^verbatim>\<open>malloc\<close> succeeds, and the width function.
\<close>

record env =
  PQstatus_ok :: bool
  PQerrorMessage_connect :: string
  PQresultStatus_ok :: bool
  PQerrorMessage_exec :: string
  PQnfields :: int
  PQfname :: "nat \<Rightarrow> string"
  PQftype :: "nat \<Rightarrow> Oid"
  PQntuples :: int
  PQgetvalue :: "nat \<Rightarrow> nat \<Rightarrow> string"
  malloc_ok :: "nat \<Rightarrow> bool"
  utf_string_dsplen_multiline :: dsplen

text \<open>
  Modelled from the spec: \<^verbatim>\<open>leave_ncurses\<close> is a function of \<^verbatim>\<open>pspg.c\<close>, not of
  \<^verbatim>\<open>pgclient.c\<close>. The spec has a fatal condition terminate the process, so a call of it
  ends the run: \<open>Leave_ncurses\<close> keeps its message and the state it was called in. The
  other ways a call of \<^verbatim>\<open>pg_exec_query\<close> ends: it returns \<open>true\<close> or \<open>false\<close>, or its
  behaviour is undefined.
\<close>

datatype outcome =
  Return bool world
| Leave_ncurses string world
| Undefined_behaviour

subsection \<open>C strings and allocations\<close>

definition NUL :: char where
  "NUL = CHR 0x00"

definition c_string :: "string \<Rightarrow> bool" where
  "c_string s = (NUL \<notin> set s)"

text \<open>Reading the C string that starts at the head of a run of cells.\<close>

fun c_str :: "char option list \<Rightarrow> string option" where
  "c_str [] = None"
| "c_str (None # bs) = None"
| "c_str (Some c # bs) =
     (if c = NUL then Some [] else map_option ((#) c) (c_str bs))"

definition read_field :: "char option list \<Rightarrow> nat \<Rightarrow> string option" where
  "read_field buf p = c_str (drop p buf)"

text \<open>\<^verbatim>\<open>strcpy(buf + p, s)\<close>: \<open>length s + 1\<close> bytes, which must lie inside the allocation.\<close>

definition strcpy :: "char option list \<Rightarrow> nat \<Rightarrow> string \<Rightarrow> char option list option" where
  "strcpy buf p s =
     (if p + length s + 1 \<le> length buf
      then Some (take p buf @ map Some s @ [Some NUL] @ drop (p + length s + 1) buf)
      else None)"

definition to_int :: "int \<Rightarrow> int" where
  "to_int n = (n + 2 ^ 31) mod 2 ^ 32 - 2 ^ 31"

definition to_size_t :: "int \<Rightarrow> int" where
  "to_size_t n = n mod 2 ^ 64"

text \<open>\<^verbatim>\<open>size += strlen(s) + 1\<close> with \<^verbatim>\<open>int size\<close>: the sum is taken in \<^verbatim>\<open>size_t\<close>.\<close>

definition add_size :: "int \<Rightarrow> string \<Rightarrow> int" where
  "add_size sz s = to_int ((to_size_t sz + (int (length s) + 1)) mod 2 ^ 64)"

definition malloc :: "env \<Rightarrow> world \<Rightarrow> bool \<times> world" where
  "malloc e w = (malloc_ok e (mallocs w), w\<lparr>mallocs := Suc (mallocs w)\<rparr>)"

subsection \<open>\<^verbatim>\<open>push_row\<close>\<close>

text \<open>
  The two assignments that end \<^verbatim>\<open>push_row\<close>: \<^verbatim>\<open>rb->rows[rb->nrows] = row;
  rb->multilines[rb->nrows++] = is_multiline\<close>. The arrays have 1000 slots.
\<close>

definition put_row :: "world \<Rightarrow> addr \<Rightarrow> RowType \<Rightarrow> bool \<Rightarrow> (world \<times> addr option) option" where
  "put_row w rb row is_multiline =
     (let b = heap w ! rb; n = nrows b in
      if n < 0 \<or> 1000 \<le> n then None
      else Some (w\<lparr>heap := (heap w)[rb := b\<lparr>rows := (rows b)(nat n \<mapsto> row),
                                              multilines := (multilines b)(nat n \<mapsto> is_multiline),
                                              nrows := n + 1\<rparr>]\<rparr>,
                 Some rb))"

text \<open>
  \<^verbatim>\<open>push_row\<close>. \<open>None\<close>: undefined behaviour; \<open>Some (w, None)\<close>: it returned NULL;
  \<open>Some (w, Some a)\<close>: it returned the bucket \<open>a\<close>.
\<close>

definition push_row :: "env \<Rightarrow> world \<Rightarrow> addr \<Rightarrow> RowType \<Rightarrow> bool \<Rightarrow> (world \<times> addr option) option" where
  "push_row e w rb row is_multiline =
     (if \<not> rb < length (heap w) then None
      else if 1000 \<le> nrows (heap w ! rb) then
        (case malloc e w of
           (False, w1) \<Rightarrow> Some (w1, None)
         | (True, w1) \<Rightarrow>
             (let new = length (heap w1);
                  h1 = heap w1 @ [\<lparr>nrows = 0, rows = Map.empty, multilines = Map.empty,
                                   allocated = True, next_bucket = None\<rparr>];
                  h2 = h1[rb := (h1 ! rb)\<lparr>next_bucket := Some new\<rparr>]
              in put_row (w1\<lparr>heap := h2\<rparr>) new row is_multiline))
      else put_row w rb row is_multiline)"

subsection \<open>\<^verbatim>\<open>column_type_class\<close>\<close>

text \<open>The type identifiers are those of PostgreSQL's \<^verbatim>\<open>catalog/pg_type_d.h\<close>.\<close>

definition INT2OID :: Oid where "INT2OID = 21"

definition INT4OID :: Oid where "INT4OID = 23"

definition INT8OID :: Oid where "INT8OID = 20"

definition FLOAT4OID :: Oid where "FLOAT4OID = 700"

definition FLOAT8OID :: Oid where "FLOAT8OID = 701"

definition NUMERICOID :: Oid where "NUMERICOID = 1700"

definition OIDOID :: Oid where "OIDOID = 26"

definition XIDOID :: Oid where "XIDOID = 28"

definition CIDOID :: Oid where "CIDOID = 29"

definition CASHOID :: Oid where "CASHOID = 790"

definition column_type_class :: "Oid \<Rightarrow> char" where
  "column_type_class ftype =
     (if ftype = INT2OID \<or> ftype = INT4OID \<or> ftype = INT8OID \<or> ftype = FLOAT4OID
         \<or> ftype = FLOAT8OID \<or> ftype = NUMERICOID \<or> ftype = OIDOID \<or> ftype = XIDOID
         \<or> ftype = CIDOID \<or> ftype = CASHOID
      then CHR ''d'' else CHR ''a'')"

subsection \<open>\<^verbatim>\<open>field_info\<close>\<close>

text \<open>
  The \<^verbatim>\<open>while (*str)\<close> loop of the 8-bit branch, on the bytes before the terminator;
  its state is \<^verbatim>\<open>cw\<close>, \<^verbatim>\<open>width\<close> and \<^verbatim>\<open>*multiline\<close>.
\<close>

fun field_info_loop :: "string \<Rightarrow> int \<Rightarrow> int \<Rightarrow> bool \<Rightarrow> int \<times> int \<times> bool" where
  "field_info_loop [] cw width multiline = (cw, width, multiline)"
| "field_info_loop (c # str) cw width multiline =
     (if c = CHR 0x0A
      then field_info_loop str 0 (if cw > width then cw else width) True
      else field_info_loop str (cw + 1) width multiline)"

text \<open>
  \<^verbatim>\<open>field_info(opts, str, &multiline)\<close>: the last argument is the value of
  \<^verbatim>\<open>*multiline\<close> before the call, the result the returned width and its value after.
\<close>

definition field_info :: "env \<Rightarrow> Options \<Rightarrow> string \<Rightarrow> bool \<Rightarrow> int \<times> bool" where
  "field_info e opts str multiline =
     (if force8bit opts then
        (case field_info_loop str 0 0 multiline of
           (cw, width, multiline') \<Rightarrow> (if cw > width then cw else width, multiline'))
      else utf_string_dsplen_multiline e str (length str) False)"

definition max_int :: "int \<Rightarrow> int \<Rightarrow> int" where
  "max_int a b = (if a > b then a else b)"

subsection \<open>\<^verbatim>\<open>pg_exec_query\<close>\<close>

definition PQclear :: "world \<Rightarrow> world" where
  "PQclear w = w\<lparr>result_open := False\<rparr>"

definition PQfinish :: "world \<Rightarrow> world" where
  "PQfinish w = w\<lparr>conn_open := False\<rparr>"

definition EXIT_OUT_OF_MEMORY :: "world \<Rightarrow> outcome" where
  "EXIT_OUT_OF_MEMORY w = Leave_ncurses ''out of memory'' (PQfinish (PQclear w))"

definition RELEASE_AND_LEAVE :: "string \<Rightarrow> world \<Rightarrow> outcome" where
  "RELEASE_AND_LEAVE s w = Return False ((PQfinish (PQclear w))\<lparr>err := Some s\<rparr>)"

definition RELEASE_AND_EXIT :: "string \<Rightarrow> world \<Rightarrow> outcome" where
  "RELEASE_AND_EXIT s w = Leave_ncurses s (PQfinish (PQclear w))"

text \<open>
  \<^verbatim>\<open>sprintf(errmsg, "<fmt>%s", arg)\<close> into \<^verbatim>\<open>char errmsg[1024]\<close>: the text and its
  terminator must fit, \<open>None\<close> is the write past the buffer.
\<close>

definition sprintf_errmsg :: "string \<Rightarrow> string \<Rightarrow> world \<Rightarrow> world option" where
  "sprintf_errmsg fmt arg w =
     (if length fmt + length arg + 1 \<le> 1024 then Some (w\<lparr>errmsg := fmt @ arg\<rparr>) else None)"

text \<open>
  The local variables of \<^verbatim>\<open>pg_exec_query\<close> that live across statements. Only
  \<^verbatim>\<open>multiline_col\<close> is read before the function assigns it, so its value at entry is an
  argument of the model. \<open>l_rb\<close> and \<open>l_row\<close> are \<^verbatim>\<open>rb\<close> and \<^verbatim>\<open>row\<close>.
\<close>

record locals =
  l_rb :: addr
  locbuf :: nat
  l_row :: RowType
  multiline_row :: bool
  multiline_col :: bool

text \<open>A \<^verbatim>\<open>for\<close> loop over the indices, left as soon as the body leaves the function.\<close>

fun for_loop :: "nat list \<Rightarrow> (nat \<Rightarrow> 's \<Rightarrow> outcome + 's) \<Rightarrow> 's \<Rightarrow> outcome + 's" where
  "for_loop [] body s = Inr s"
| "for_loop (i # ixs) body s =
     (case body i s of Inl out \<Rightarrow> Inl out | Inr s' \<Rightarrow> for_loop ixs body s')"

text \<open>Lines 184-185: \<^verbatim>\<open>pdesc->types[i] = column_type_class(PQftype(result, i))\<close>.\<close>

definition set_types :: "env \<Rightarrow> int \<Rightarrow> PrintDataDesc \<Rightarrow> PrintDataDesc" where
  "set_types e nfields pd =
     fold (\<lambda>i pd. pd\<lparr>types := (types pd)(i := column_type_class (PQftype e i))\<rparr>)
       [0..<nat nfields] pd"

text \<open>Lines 188-190 and 225-227: the payload size of a row whose field \<open>j\<close> is \<open>text j\<close>.\<close>

definition row_size :: "int \<Rightarrow> (nat \<Rightarrow> string) \<Rightarrow> int" where
  "row_size nfields text = fold (\<lambda>j sz. add_size sz (text j)) [0..<nat nfields] 0"

text \<open>
  Lines 188-203 and 225-240: the size, the two allocations, \<^verbatim>\<open>row->nfields = nfields\<close>
  and \<^verbatim>\<open>multiline_row = false\<close>. The argument of \<^verbatim>\<open>malloc\<close> is the \<^verbatim>\<open>int\<close> converted
  to \<^verbatim>\<open>size_t\<close>.
\<close>

definition new_row :: "env \<Rightarrow> int \<Rightarrow> (nat \<Rightarrow> string) \<Rightarrow> world \<times> locals \<Rightarrow> outcome + world \<times> locals" where
  "new_row e nfields text wl =
     (case wl of (w, l) \<Rightarrow>
        (case malloc e w of
           (False, w1) \<Rightarrow> Inl (EXIT_OUT_OF_MEMORY w1)
         | (True, w1) \<Rightarrow>
             (case malloc e w1 of
                (False, w2) \<Rightarrow> Inl (EXIT_OUT_OF_MEMORY w2)
              | (True, w2) \<Rightarrow>
                  Inr (w2, l\<lparr>locbuf := 0,
                             l_row := \<lparr>r_nfields = nfields, r_fields = Map.empty,
                                     payload = replicate (nat (to_size_t (row_size nfields text))) None\<rparr>,
                             multiline_row := False\<rparr>))))"

text \<open>
  Lines 206-210 and 243-247: \<^verbatim>\<open>strcpy(locbuf, s); row->fields[i] = locbuf;
  locbuf += strlen(s) + 1\<close>, and the string \<^verbatim>\<open>row->fields[i]\<close> then points to.
\<close>

definition copy_field :: "nat \<Rightarrow> string \<Rightarrow> locals \<Rightarrow> (locals \<times> string) option" where
  "copy_field i s l =
     (case strcpy (payload (l_row l)) (locbuf l) s of
        None \<Rightarrow> None
      | Some buf \<Rightarrow>
          (case read_field buf (locbuf l) of
             None \<Rightarrow> None
           | Some str \<Rightarrow>
               Some (l\<lparr>l_row := (l_row l)\<lparr>payload := buf,
                                       r_fields := (r_fields (l_row l))(i \<mapsto> locbuf l)\<rparr>,
                       locbuf := locbuf l + length s + 1\<rparr>, str)))"

text \<open>Lines 204-216, the body of the header loop.\<close>

definition header_field :: "env \<Rightarrow> Options \<Rightarrow> nat \<Rightarrow> world \<times> locals \<Rightarrow> outcome + world \<times> locals" where
  "header_field e opts i wl =
     (case wl of (w, l) \<Rightarrow>
        (case copy_field i (PQfname e i) l of
           None \<Rightarrow> Inl Undefined_behaviour
         | Some (l1, str) \<Rightarrow>
             (case field_info e opts str (multiline_col l1) of
                (width, mc) \<Rightarrow>
                  Inr (w\<lparr>pdesc := (pdesc w)\<lparr>widths := (widths (pdesc w))(i := width),
                                              pd_multilines := (pd_multilines (pdesc w))(i := mc)\<rparr>\<rparr>,
                       l1\<lparr>multiline_col := mc, multiline_row := (multiline_row l1 \<or> mc)\<rparr>))))"

text \<open>Lines 241-253, the body of the loop over the fields of tuple \<open>i\<close>.\<close>

definition data_field :: "env \<Rightarrow> Options \<Rightarrow> nat \<Rightarrow> nat \<Rightarrow> world \<times> locals \<Rightarrow> outcome + world \<times> locals" where
  "data_field e opts i j wl =
     (case wl of (w, l) \<Rightarrow>
        (case copy_field j (PQgetvalue e i j) l of
           None \<Rightarrow> Inl Undefined_behaviour
         | Some (l1, str) \<Rightarrow>
             (case field_info e opts str (multiline_col l1) of
                (width, mc) \<Rightarrow>
                  Inr (w\<lparr>pdesc := (pdesc w)\<lparr>widths := (widths (pdesc w))(j := max_int (widths (pdesc w) j) width),
                                              pd_multilines := (pd_multilines (pdesc w))(j := (pd_multilines (pdesc w) j \<or> mc))\<rparr>\<rparr>,
                       l1\<lparr>multiline_col := mc, multiline_row := (multiline_row l1 \<or> mc)\<rparr>))))"

text \<open>Lines 218-220 and 255-257: \<^verbatim>\<open>rb = push_row(rb, row, multiline_row)\<close> and its check.\<close>

definition push_checked :: "env \<Rightarrow> world \<times> locals \<Rightarrow> outcome + world \<times> locals" where
  "push_checked e wl =
     (case wl of (w, l) \<Rightarrow>
        (case push_row e w (l_rb l) (l_row l) (multiline_row l) of
           None \<Rightarrow> Inl Undefined_behaviour
         | Some (w', None) \<Rightarrow> Inl (EXIT_OUT_OF_MEMORY w')
         | Some (w', Some new_rb) \<Rightarrow> Inr (w', l\<lparr>l_rb := new_rb\<rparr>)))"

text \<open>Lines 187-220: the header row.\<close>

definition store_header :: "env \<Rightarrow> Options \<Rightarrow> world \<times> locals \<Rightarrow> outcome + world \<times> locals" where
  "store_header e opts wl =
     (case new_row e (PQnfields e) (PQfname e) wl of
        Inl out \<Rightarrow> Inl out
      | Inr wl1 \<Rightarrow>
          (case for_loop [0..<nat (PQnfields e)] (header_field e opts) wl1 of
             Inl out \<Rightarrow> Inl out
           | Inr wl2 \<Rightarrow> push_checked e wl2))"

text \<open>Lines 225-257: the body of the loop over the tuples.\<close>

definition store_tuple :: "env \<Rightarrow> Options \<Rightarrow> nat \<Rightarrow> world \<times> locals \<Rightarrow> outcome + world \<times> locals" where
  "store_tuple e opts i wl =
     (case new_row e (PQnfields e) (PQgetvalue e i) wl of
        Inl out \<Rightarrow> Inl out
      | Inr wl1 \<Rightarrow>
          (case for_loop [0..<nat (PQnfields e)] (data_field e opts i) wl1 of
             Inl out \<Rightarrow> Inl out
           | Inr wl2 \<Rightarrow> push_checked e wl2))"

text \<open>
  \<^verbatim>\<open>pg_exec_query(opts, rb, pdesc, err)\<close> in a build with \<^verbatim>\<open>HAVE_POSTGRESQL\<close>. The
  caller's bucket is \<open>rb0\<close>, \<open>mc0\<close> is what \<^verbatim>\<open>multiline_col\<close> happens to hold at entry;
  \<^verbatim>\<open>pdesc\<close> and \<^verbatim>\<open>*err\<close> are parts of the world. \<open>w1\<close> is the state after lines 137-157
  (both handles NULL, the caller's bucket emptied), \<open>w2\<close> after \<^verbatim>\<open>PQconnectdbParams\<close>,
  \<open>w3\<close> after \<^verbatim>\<open>PQexec\<close>.
\<close>

definition pg_exec_query :: "env \<Rightarrow> Options \<Rightarrow> addr \<Rightarrow> bool \<Rightarrow> world \<Rightarrow> outcome" where
  "pg_exec_query e opts rb0 mc0 w0 =
     (if \<not> rb0 < length (heap w0) then Undefined_behaviour
      else
        let w1 = w0\<lparr>conn_open := False, result_open := False,
                    heap := (heap w0)[rb0 := (heap w0 ! rb0)\<lparr>nrows := 0, next_bucket := None\<rparr>]\<rparr>;
            w2 = w1\<lparr>conn_open := True\<rparr>
        in
        if \<not> PQstatus_ok e then
          (case sprintf_errmsg ''Connection to database failed: '' (PQerrorMessage_connect e) w2 of
             None \<Rightarrow> Undefined_behaviour
           | Some w3 \<Rightarrow> RELEASE_AND_LEAVE (errmsg w3) w3)
        else
          let w3 = w2\<lparr>result_open := True\<rparr> in
          if \<not> PQresultStatus_ok e then
            (case sprintf_errmsg ''Query doesn't return data: '' (PQerrorMessage_exec e) w3 of
               None \<Rightarrow> Undefined_behaviour
             | Some w4 \<Rightarrow> RELEASE_AND_LEAVE (errmsg w4) w4)
          else if PQnfields e > 1024 then RELEASE_AND_EXIT ''too much columns'' w3
          else
            let w4 = w3\<lparr>pdesc := set_types e (PQnfields e)
                                   ((pdesc w3)\<lparr>pd_nfields := PQnfields e, has_header := True\<rparr>)\<rparr>;
                l0 = \<lparr>l_rb = rb0, locbuf = 0,
                      l_row = \<lparr>r_nfields = 0, r_fields = Map.empty, payload = []\<rparr>,
                      multiline_row = False, multiline_col = mc0\<rparr>
            in
            (case store_header e opts (w4, l0) of
               Inl out \<Rightarrow> out
             | Inr wl1 \<Rightarrow>
                 (case for_loop [0..<nat (PQntuples e)] (store_tuple e opts) wl1 of
                    Inl out \<Rightarrow> out
                  | Inr (w5, l5) \<Rightarrow> Return True ((PQfinish (PQclear w5))\<lparr>err := None\<rparr>))))"

text \<open>
  The branch of a build without \<^verbatim>\<open>HAVE_POSTGRESQL\<close> (lines 269-271). Its first statement
  lacks the semicolon, so the branch does not compile as it stands; read with the semicolon
  it assigns the message to the parameter \<^verbatim>\<open>err\<close>, a local copy of the pointer
  (\<open>err_parameter\<close>), and returns \<open>false\<close>: nothing the caller can see changes.
\<close>

definition pg_exec_query_no_postgresql :: "world \<Rightarrow> outcome" where
  "pg_exec_query_no_postgresql w =
     (let err_parameter =
        ''Query cannot be executed. The Postgres library was not available at compile time.''
      in Return False w)"

subsection \<open>The bucket chain\<close>

text \<open>
  \<open>chain h p bs\<close>: following \<^verbatim>\<open>next_bucket\<close> from the pointer \<open>p\<close> visits exactly the
  buckets \<open>bs\<close> and ends in NULL.
\<close>

fun chain :: "RowBucketType list \<Rightarrow> addr option \<Rightarrow> addr list \<Rightarrow> bool" where
  "chain h p [] = (p = None)"
| "chain h p (b # bs) = (p = Some b \<and> b < length h \<and> chain h (next_bucket (h ! b)) bs)"

text \<open>Every bucket but the last holds 1000 records, the last between 0 and 1000.\<close>

definition chain_inv :: "RowBucketType list \<Rightarrow> addr list \<Rightarrow> bool" where
  "chain_inv h bs =
     (bs \<noteq> [] \<and> chain h (Some (hd bs)) bs
      \<and> list_all (\<lambda>b. nrows (h ! b) = 1000) (butlast bs)
      \<and> 0 \<le> nrows (h ! last bs) \<and> nrows (h ! last bs) \<le> 1000)"

text \<open>
  Appending a sequence of records the way \<^verbatim>\<open>pg_exec_query\<close> does: each call gets the
  bucket the call before returned, and a NULL ends it.
\<close>

fun push_rows :: "env \<Rightarrow> world \<Rightarrow> addr \<Rightarrow> (RowType \<times> bool) list \<Rightarrow> (world \<times> addr option) option" where
  "push_rows e w rb [] = Some (w, Some rb)"
| "push_rows e w rb ((row, is_multiline) # rs) =
     (case push_row e w rb row is_multiline of
        None \<Rightarrow> None
      | Some (w', None) \<Rightarrow> Some (w', None)
      | Some (w', Some rb') \<Rightarrow> push_rows e w' rb' rs)"

subsection \<open>Notions used in the statements\<close>

text \<open>
  The state \<^verbatim>\<open>pg_exec_query\<close> has built when it reaches line 187 (connection and result
  are fine, the column count is accepted, the alignment classes are set), and its local
  variables there.
\<close>

definition header_world :: "env \<Rightarrow> addr \<Rightarrow> world \<Rightarrow> world" where
  "header_world e rb0 w0 =
     w0\<lparr>heap := (heap w0)[rb0 := (heap w0 ! rb0)\<lparr>nrows := 0, next_bucket := None\<rparr>],
        conn_open := True, result_open := True,
        pdesc := set_types e (PQnfields e)
                   ((pdesc w0)\<lparr>pd_nfields := PQnfields e, has_header := True\<rparr>)\<rparr>"

definition entry_locals :: "addr \<Rightarrow> bool \<Rightarrow> locals" where
  "entry_locals rb0 mc0 =
     \<lparr>l_rb = rb0, locbuf = 0, l_row = \<lparr>r_nfields = 0, r_fields = Map.empty, payload = []\<rparr>,
      multiline_row = False, multiline_col = mc0\<rparr>"

text \<open>
  The ways the part after line 187 leaves the function early: the out-of-memory exit, with
  result and connection released, or undefined behaviour.
\<close>

definition fatal_alloc :: "outcome \<Rightarrow> bool" where
  "fatal_alloc out = (case out of
       Return b w \<Rightarrow> False
     | Leave_ncurses s w \<Rightarrow> s = ''out of memory'' \<and> \<not> result_open w \<and> \<not> conn_open w
     | Undefined_behaviour \<Rightarrow> True)"

text \<open>
  The width \<^verbatim>\<open>field_info\<close> returns for a text; it does not depend on the flag passed in
  (\<open>field_info_width\<close> below).
\<close>

definition display_width :: "env \<Rightarrow> Options \<Rightarrow> string \<Rightarrow> int" where
  "display_width e opts s = fst (field_info e opts s False)"

text \<open>
  Where the fields of a row lie in its payload when field \<open>j\<close> is \<open>text j\<close>: each field
  starts where the one before it, and its terminator, end; \<open>packed\<close> is the bytes written
  for the first \<open>n\<close> fields.
\<close>

fun field_offset :: "(nat \<Rightarrow> string) \<Rightarrow> nat \<Rightarrow> nat" where
  "field_offset text 0 = 0"
| "field_offset text (Suc j) = field_offset text j + length (text j) + 1"

definition packed :: "(nat \<Rightarrow> string) \<Rightarrow> nat \<Rightarrow> char option list" where
  "packed text n = concat (map (\<lambda>j. map Some (text j) @ [Some NUL]) [0..<n])"

text \<open>The row under construction after \<open>j\<close> fields.\<close>

definition row_filled :: "(nat \<Rightarrow> string) \<Rightarrow> nat \<Rightarrow> locals \<Rightarrow> bool" where
  "row_filled text j l =
     (locbuf l = field_offset text j
      \<and> field_offset text j \<le> length (payload (l_row l))
      \<and> take (field_offset text j) (payload (l_row l)) = packed text j
      \<and> (\<forall>i. r_fields (l_row l) i = (if i < j then Some (field_offset text i) else None)))"

text \<open>
  A finished row of \<open>nfields\<close> fields: its pointer \<open>j\<close> is the offset of field \<open>j\<close>, the
  bytes from there up to the offset of the next field are \<open>text j\<close> and its terminator, and
  the C string read there is \<open>text j\<close>.
\<close>

definition holds_fields :: "int \<Rightarrow> (nat \<Rightarrow> string) \<Rightarrow> RowType \<Rightarrow> bool" where
  "holds_fields nfields text r =
     (r_nfields r = nfields
      \<and> (\<forall>j<nat nfields. r_fields r j = Some (field_offset text j)
            \<and> take (length (text j) + 1) (drop (field_offset text j) (payload r))
                = map Some (text j) @ [Some NUL]
            \<and> read_field (payload r) (field_offset text j) = Some (text j)))"

text \<open>The running maximum of column \<open>i\<close> after the header and \<open>k\<close> data rows.\<close>

fun column_width :: "env \<Rightarrow> Options \<Rightarrow> nat \<Rightarrow> nat \<Rightarrow> int" where
  "column_width e opts i 0 = display_width e opts (PQfname e i)"
| "column_width e opts i (Suc k) =
     max_int (column_width e opts i k) (display_width e opts (PQgetvalue e k i))"

text \<open>Every column name and every value libpq hands out is a C string.\<close>

definition c_source :: "env \<Rightarrow> bool" where
  "c_source e =
     (list_all (\<lambda>j. c_string (PQfname e j)) [0..<nat (PQnfields e)]
      \<and> list_all (\<lambda>k. list_all (\<lambda>j. c_string (PQgetvalue e k j)) [0..<nat (PQnfields e)])
           [0..<nat (PQntuples e)])"

text \<open>
  The records of a bucket in slot order, and those of a chain of buckets: the traversal
  of the store in insertion order.
\<close>

definition bucket_records :: "RowBucketType \<Rightarrow> RowType option list" where
  "bucket_records b = map (rows b) [0..<nat (nrows b)]"

definition store_records :: "RowBucketType list \<Rightarrow> addr list \<Rightarrow> RowType option list" where
  "store_records h bs = concat (map (\<lambda>b. bucket_records (h ! b)) bs)"

text \<open>The texts record \<open>m\<close> of the store is built from: the header first, then the tuples.\<close>

fun record_text :: "env \<Rightarrow> nat \<Rightarrow> nat \<Rightarrow> string" where
  "record_text e 0 = PQfname e"
| "record_text e (Suc k) = PQgetvalue e k"

text \<open>
  The payload of every row, header included, is below \<open>2 ^ 31\<close> bytes, so that the
  \<^verbatim>\<open>int\<close> that sums it up does not wrap.
\<close>

definition sizes_fit :: "env \<Rightarrow> bool" where
  "sizes_fit e =
     (list_all (\<lambda>m. int (field_offset (record_text e m) (nat (PQnfields e))) < 2 ^ 31)
        [0..<Suc (nat (PQntuples e))])"

text \<open>
  The store after the header and \<open>k\<close> tuples: a chain from the caller's bucket to the
  bucket the pipeline holds, whose \<open>k + 1\<close> records hold the header and the tuples in order.
\<close>

definition store_holds :: "env \<Rightarrow> addr \<Rightarrow> nat \<Rightarrow> world \<times> locals \<Rightarrow> bool" where
  "store_holds e rb0 k s =
     (\<exists>bs. chain_inv (heap (fst s)) bs \<and> hd bs = rb0 \<and> last bs = l_rb (snd s)
        \<and> length (store_records (heap (fst s)) bs) = Suc k
        \<and> (\<forall>m\<le>k. \<exists>r. store_records (heap (fst s)) bs ! m = Some r
                    \<and> holds_fields (PQnfields e) (record_text e m) r))"

subsection \<open>Sample inputs\<close>

text \<open>
  The source of the spec's end-to-end scenario: the columns \<open>id\<close> (an integer) and
  \<open>name\<close> (a text), the rows \<open>1, Al\<close> and \<open>22, Robert\<close>; every allocation succeeds.
\<close>

definition sample_env :: env where
  "sample_env =
     \<lparr>PQstatus_ok = True, PQerrorMessage_connect = [],
      PQresultStatus_ok = True, PQerrorMessage_exec = [],
      PQnfields = 2,
      PQfname = (\<lambda>i. if i = 0 then ''id'' else ''name''),
      PQftype = (\<lambda>i. if i = 0 then INT4OID else 25),
      PQntuples = 2,
      PQgetvalue = (\<lambda>i j. if i = 0 then (if j = 0 then ''1'' else ''Al'')
                           else (if j = 0 then ''22'' else ''Robert'')),
      malloc_ok = (\<lambda>n. True),
      utf_string_dsplen_multiline = (\<lambda>s n first_only. (int (length s), False))\<rparr>"

definition sample_opts :: Options where
  "sample_opts = \<lparr>force8bit = True, query = ''select id, name from t''\<rparr>"

definition empty_bucket :: RowBucketType where
  "empty_bucket = \<lparr>nrows = 0, rows = Map.empty, multilines = Map.empty,
                   allocated = False, next_bucket = None\<rparr>"

definition sample_world :: world where
  "sample_world =
     \<lparr>heap = [empty_bucket],
      pdesc = \<lparr>pd_nfields = 0, has_header = False, types = (\<lambda>i. CHR ''a''),
               widths = (\<lambda>i. 0), pd_multilines = (\<lambda>i. False)\<rparr>,
      err = None, errmsg = [], result_open = False, conn_open = False, mallocs = 0\<rparr>"

definition sample_row :: RowType where
  "sample_row = \<lparr>r_nfields = 1, r_fields = [0 \<mapsto> 0], payload = [Some CHR ''x'', Some NUL]\<rparr>"

text \<open>Local variables to start a tuple from, and the sample source with 1024 columns.\<close>

definition sample_locals :: locals where
  "sample_locals = \<lparr>l_rb = 0, locbuf = 0, l_row = sample_row,
                     multiline_row = False, multiline_col = False\<rparr>"

definition wide_env :: env where
  "wide_env = sample_env\<lparr>PQnfields := 1024\<rparr>"

section \<open>Properties\<close>

subsection \<open>The width calculator\<close>

lemma field_info_loop_flag:
  "snd (snd (field_info_loop str cw width multiline)) = (multiline \<or> CHR 0x0A \<in> set str)"
  by (induction str arbitrary: cw width multiline) auto

text \<open>
  The flag the 8-bit branch leaves in \<^verbatim>\<open>*multiline\<close>: set when the text has a line
  break, otherwise what it was before the call.
\<close>

lemma field_info_force8bit_flag:
  "force8bit opts \<Longrightarrow>
   snd (field_info e opts str multiline) = (multiline \<or> CHR 0x0A \<in> set str)"
  using field_info_loop_flag [of str 0 0 multiline]
  by (auto simp: field_info_def split: prod.splits)

lemma field_info_loop_bound:
  "0 \<le> cw \<Longrightarrow> 0 \<le> width \<Longrightarrow>
   0 \<le> fst (field_info_loop str cw width multiline)
   \<and> fst (field_info_loop str cw width multiline) \<le> cw + int (length str)
   \<and> 0 \<le> fst (snd (field_info_loop str cw width multiline))
   \<and> fst (snd (field_info_loop str cw width multiline)) \<le> max cw width + int (length str)"
proof (induction str arbitrary: cw width multiline)
  case Nil
  then show ?case by simp
next
  case (Cons c str)
  show ?case
  proof (cases "c = CHR 0x0A")
    case True
    from Cons.IH [of 0 "if cw > width then cw else width" True] Cons.prems True
    show ?thesis by (auto simp: max_def split: if_splits)
  next
    case False
    from Cons.IH [of "cw + 1" width multiline] Cons.prems False
    show ?thesis by (auto simp: max_def split: if_splits)
  qed
qed

text \<open>In the 8-bit branch the width is between 0 and the length of the text.\<close>

lemma field_info_force8bit_bound:
  assumes "force8bit opts"
  shows "0 \<le> fst (field_info e opts str multiline)
       \<and> fst (field_info e opts str multiline) \<le> int (length str)"
  using assms field_info_loop_bound [of 0 0 str multiline]
  by (auto simp: field_info_def split: prod.splits)

lemma field_info_loop_no_break:
  "CHR 0x0A \<notin> set str \<Longrightarrow>
   field_info_loop str cw width multiline = (cw + int (length str), width, multiline)"
  by (induction str arbitrary: cw) auto

text \<open>
  What the 8-bit branch does for a text without a line break: the width is the byte count,
  and the flag is the one the caller passed in.
\<close>

lemma field_info_force8bit_no_break:
  "force8bit opts \<Longrightarrow> CHR 0x0A \<notin> set str \<Longrightarrow>
   field_info e opts str multiline = (int (length str), multiline)"
  by (simp add: field_info_def field_info_loop_no_break)

text \<open>The text \<open>a\<close>, line break, \<open>bb\<close>, line break, \<open>c\<close> in the 8-bit branch.\<close>

lemma field_info_force8bit_lines:
  "force8bit opts \<Longrightarrow>
   field_info e opts [CHR ''a'', CHR 0x0A, CHR ''b'', CHR ''b'', CHR 0x0A, CHR ''c''] multiline
     = (2, True)"
  by (simp add: field_info_def)

text \<open>
  The flag that stays set reaches the output of the pipeline: in 8-bit mode, with the value
  of the second column of the first tuple holding a line break, the first column, none of
  whose texts has one, is marked multiline, and so is the second tuple.
\<close>

lemma sticky_multiline_in_pipeline:
  "case pg_exec_query
          (sample_env\<lparr>PQgetvalue := (\<lambda>i j. if i = 0 then (if j = 0 then ''1'' else [CHR ''A'', CHR 0x0A, CHR ''l''])
                                           else (if j = 0 then ''22'' else ''Robert''))\<rparr>)
          sample_opts 0 False sample_world of
     Return b w \<Rightarrow> b \<and> pd_multilines (pdesc w) 0 \<and> multilines (heap w ! 0) 2 = Some True
   | Leave_ncurses m w \<Rightarrow> False
   | Undefined_behaviour \<Rightarrow> False"
  by code_simp

text \<open>
  C1. In the 8-bit branch \<^verbatim>\<open>field_info\<close> only ever stores \<open>true\<close> into
  \<^verbatim>\<open>*multiline\<close>: for the text \<open>abc\<close>, which has no line break, and a flag that was
  \<open>true\<close> before the call, the width is 3 and the flag is still \<open>true\<close>.
\<close>

theorem field_info_force8bit_keeps_flag:
  "field_info e \<lparr>force8bit = True, query = q\<rparr> ''abc'' True = (3, True)"
  by (simp add: field_info_def)

lemma field_info_loop_widths:
  "fst (field_info_loop s cw wd b) = fst (field_info_loop s cw wd b')
   \<and> fst (snd (field_info_loop s cw wd b)) = fst (snd (field_info_loop s cw wd b'))"
  by (induction s arbitrary: cw wd b b') auto

lemma field_info_width: "fst (field_info e opts s b) = display_width e opts s"
  using field_info_loop_widths [of s 0 0 b False]
  by (auto simp: field_info_def display_width_def split: prod.splits)

subsection \<open>\<^verbatim>\<open>push_row\<close> and the chain of buckets\<close>

lemma push_row_room:
  assumes "rb < length (heap w)" "0 \<le> nrows (heap w ! rb)" "nrows (heap w ! rb) < 1000"
  shows "push_row e w rb row ml =
     Some (w\<lparr>heap := (heap w)[rb := (heap w ! rb)\<lparr>rows := (rows (heap w ! rb))(nat (nrows (heap w ! rb)) \<mapsto> row),
               multilines := (multilines (heap w ! rb))(nat (nrows (heap w ! rb)) \<mapsto> ml),
               nrows := nrows (heap w ! rb) + 1\<rparr>]\<rparr>, Some rb)"
  using assms by (simp add: push_row_def put_row_def Let_def)

lemma push_row_full:
  assumes "rb < length (heap w)" "1000 \<le> nrows (heap w ! rb)" "malloc_ok e (mallocs w)"
  shows "push_row e w rb row ml =
     Some (w\<lparr>mallocs := Suc (mallocs w),
             heap := (heap w)[rb := (heap w ! rb)\<lparr>next_bucket := Some (length (heap w))\<rparr>]
                     @ [\<lparr>nrows = 1, rows = [0 \<mapsto> row], multilines = [0 \<mapsto> ml],
                         allocated = True, next_bucket = None\<rparr>]\<rparr>, Some (length (heap w)))"
  using assms by (simp add: push_row_def put_row_def Let_def malloc_def list_update_append nth_append)

lemma push_row_null:
  assumes "rb < length (heap w)" "1000 \<le> nrows (heap w ! rb)" "\<not> malloc_ok e (mallocs w)"
  shows "push_row e w rb row ml = Some (w\<lparr>mallocs := Suc (mallocs w)\<rparr>, None)"
  using assms by (simp add: push_row_def malloc_def)

lemma chain_last_next:
  "chain h p bs \<Longrightarrow> bs \<noteq> [] \<Longrightarrow> next_bucket (h ! last bs) = None"
  by (induction bs arbitrary: p) (auto split: if_splits)

lemma chain_valid: "chain h p bs \<Longrightarrow> b \<in> set bs \<Longrightarrow> b < length h"
  by (induction bs arbitrary: p) auto

lemma chain_cong:
  "chain h p bs \<Longrightarrow> length h \<le> length h' \<Longrightarrow>
   (\<And>b. b \<in> set bs \<Longrightarrow> next_bucket (h' ! b) = next_bucket (h ! b)) \<Longrightarrow> chain h' p bs"
  by (induction bs arbitrary: p) auto

lemma chain_extend:
  assumes "chain h p bs" "bs \<noteq> []"
  shows "chain (h[last bs := (h ! last bs)\<lparr>next_bucket := Some (length h)\<rparr>] @ [nb\<lparr>next_bucket := None\<rparr>])
           p (bs @ [length h])"
  using assms
proof (induction bs arbitrary: p)
  case Nil
  then show ?case by simp
next
  case (Cons b bs)
  show ?case
  proof (cases "bs = []")
    case True
    with Cons.prems show ?thesis by (simp add: nth_append)
  next
    case False
    from Cons.prems have c: "chain h (next_bucket (h ! b)) bs" and b: "b < length h" and p: "p = Some b"
      by simp_all
    from c False have "next_bucket (h ! b) \<noteq> None" by (cases bs) auto
    moreover from c False have "next_bucket (h ! last bs) = None" by (rule chain_last_next)
    ultimately have ne: "b \<noteq> last bs" by auto
    from Cons.IH [OF c False] b p ne False show ?thesis
      by (simp add: nth_append)
  qed
qed

lemma chain_nonempty: "chain h p bs \<Longrightarrow> bs \<noteq> [] \<Longrightarrow> p \<noteq> None"
  by (cases bs) auto

lemma chain_butlast_next:
  "chain h p bs \<Longrightarrow> b \<in> set (butlast bs) \<Longrightarrow> next_bucket (h ! b) \<noteq> None"
  by (induction bs arbitrary: p) (auto split: if_splits dest: chain_nonempty)

lemma chain_butlast_not_last:
  assumes "chain h p bs" "b \<in> set (butlast bs)"
  shows "b \<noteq> last bs"
proof
  assume "b = last bs"
  moreover from assms(2) have "bs \<noteq> []" by auto
  ultimately have "next_bucket (h ! b) = None" using chain_last_next [OF assms(1)] by simp
  with chain_butlast_next [OF assms] show False by simp
qed

lemma store_records_append:
  "store_records h (xs @ ys) = store_records h xs @ store_records h ys"
  by (simp add: store_records_def)

lemma store_records_single: "store_records h [b] = bucket_records (h ! b)"
  by (simp add: store_records_def)

lemma store_records_cong:
  "(\<And>b. b \<in> set bs \<Longrightarrow> bucket_records (h' ! b) = bucket_records (h ! b)) \<Longrightarrow>
   store_records h' bs = store_records h bs"
  by (induction bs) (simp_all add: store_records_def)

text \<open>One call of \<^verbatim>\<open>push_row\<close> on the last bucket of a chain.\<close>

lemma push_row_step:
  assumes inv: "chain_inv (heap w) bs"
    and push: "push_row e w (last bs) row is_multiline = Some (w', Some t)"
  shows "chain_inv (heap w') (if nrows (heap w ! last bs) < 1000 then bs else bs @ [t])
       \<and> store_records (heap w') (if nrows (heap w ! last bs) < 1000 then bs else bs @ [t])
           = store_records (heap w) bs @ [Some row]
       \<and> list_all (\<lambda>b. heap w' ! b = heap w ! b) (butlast bs)
       \<and> rows (heap w' ! t) (nat (nrows (heap w' ! t) - 1)) = Some row
       \<and> multilines (heap w' ! t) (nat (nrows (heap w' ! t) - 1)) = Some is_multiline
       \<and> (if nrows (heap w ! last bs) < 1000
          then t = last bs \<and> nrows (heap w' ! t) = nrows (heap w ! t) + 1
          else t = length (heap w) \<and> nrows (heap w' ! t) = 1
             \<and> heap w' ! last bs = (heap w ! last bs)\<lparr>next_bucket := Some t\<rparr>)"
proof -
  let ?h = "heap w" and ?l = "last bs"
  from inv have ne: "bs \<noteq> []" and ch: "chain ?h (Some (hd bs)) bs"
    and full: "list_all (\<lambda>b. nrows (?h ! b) = 1000) (butlast bs)"
    and lo: "0 \<le> nrows (?h ! ?l)" and hi: "nrows (?h ! ?l) \<le> 1000"
    by (simp_all add: chain_inv_def)
  from ne have lin: "?l \<in> set bs" by simp
  with ch have lv: "?l < length ?h" by (rule chain_valid)
  have bl: "b \<noteq> ?l" if "b \<in> set (butlast bs)" for b
    using chain_butlast_not_last [OF ch that] .
  show ?thesis
  proof (cases "nrows (?h ! ?l) < 1000")
    case True
    from push push_row_room [OF lv lo True, of e row is_multiline]
    have t: "t = ?l" and h': "heap w' = ?h[?l := (?h ! ?l)\<lparr>rows := (rows (?h ! ?l))(nat (nrows (?h ! ?l)) \<mapsto> row),
               multilines := (multilines (?h ! ?l))(nat (nrows (?h ! ?l)) \<mapsto> is_multiline),
               nrows := nrows (?h ! ?l) + 1\<rparr>]"
      by auto
    have "chain (heap w') (Some (hd bs)) bs"
      using lv by (intro chain_cong [OF ch]) (auto simp: h' nth_list_update)
    moreover have "list_all (\<lambda>b. heap w' ! b = ?h ! b) (butlast bs)"
      using bl lv by (auto simp: list_all_iff h' nth_list_update)
    moreover have "list_all (\<lambda>b. nrows (heap w' ! b) = 1000) (butlast bs)"
      using full bl lv by (auto simp: list_all_iff h' nth_list_update)
    moreover have "store_records (heap w') bs = store_records ?h bs @ [Some row]"
    proof -
      have "store_records (heap w') (butlast bs) = store_records ?h (butlast bs)"
        using bl lv by (intro store_records_cong) (auto simp: h' nth_list_update)
      moreover have "bucket_records (heap w' ! ?l) = bucket_records (?h ! ?l) @ [Some row]"
        using lv lo by (simp add: h' bucket_records_def nat_add_distrib)
      ultimately have "store_records (heap w') (butlast bs @ [?l]) = store_records ?h (butlast bs @ [?l]) @ [Some row]"
        by (simp add: store_records_append store_records_single)
      with ne show ?thesis by simp
    qed
    ultimately show ?thesis
      using True lo lv ne by (simp add: chain_inv_def t h')
  next
    case False
    with hi have eq: "nrows (?h ! ?l) = 1000" by simp
    have ok: "malloc_ok e (mallocs w)"
    proof (rule ccontr)
      assume "\<not> malloc_ok e (mallocs w)"
      with push push_row_null [OF lv, of e row is_multiline] eq show False by simp
    qed
    from push push_row_full [OF lv _ ok, of row is_multiline] eq
    have t: "t = length ?h"
      and h': "heap w' = ?h[?l := (?h ! ?l)\<lparr>next_bucket := Some (length ?h)\<rparr>]
                     @ [\<lparr>nrows = 1, rows = [0 \<mapsto> row], multilines = [0 \<mapsto> is_multiline],
                         allocated = True, next_bucket = None\<rparr>]"
      by auto
    have "chain (heap w') (Some (hd bs)) (bs @ [length ?h])"
      using chain_extend [OF ch ne, of "\<lparr>nrows = 1, rows = [0 \<mapsto> row], multilines = [0 \<mapsto> is_multiline],
                         allocated = True, next_bucket = None\<rparr>"]
      by (simp add: h')
    moreover have old: "heap w' ! b = ?h ! b" if "b \<in> set (butlast bs)" for b
    proof -
      from that have "b \<in> set bs" by (rule in_set_butlastD)
      with ch have "b < length ?h" by (rule chain_valid)
      with bl [OF that] show ?thesis by (simp add: h' nth_append)
    qed
    moreover have "nrows (heap w' ! b) = 1000" if "b \<in> set bs" for b
    proof (cases "b = ?l")
      case True
      with lv eq show ?thesis by (simp add: h' nth_append)
    next
      case False
      with that ne have "b \<in> set (butlast bs)"
        by (cases bs rule: rev_cases) auto
      with old [OF this] full show ?thesis by (simp add: list_all_iff)
    qed
    moreover have "store_records (heap w') (bs @ [length ?h]) = store_records ?h bs @ [Some row]"
    proof -
      have "bucket_records (heap w' ! b) = bucket_records (?h ! b)" if "b \<in> set bs" for b
      proof -
        from ch that have "b < length ?h" by (rule chain_valid)
        then show ?thesis
          by (cases "b = ?l") (simp_all add: h' nth_append bucket_records_def)
      qed
      then have "store_records (heap w') bs = store_records ?h bs"
        by (intro store_records_cong) simp
      moreover have "bucket_records (heap w' ! length ?h) = [Some row]"
        by (simp add: h' nth_append bucket_records_def)
      ultimately show ?thesis
        by (simp add: store_records_append store_records_single)
    qed
    ultimately show ?thesis
      using False lv ne by (simp add: chain_inv_def t h' list_all_iff nth_append)
  qed
qed

text \<open>
  C4. A call of \<^verbatim>\<open>push_row\<close> on the last bucket of a chain that satisfies the invariant,
  when it returns a bucket, leaves a chain that satisfies it: every bucket but the last
  holds 1000 records. No bucket before the last is touched. The record and its flag are in
  the last used slot of the bucket returned. With room in the last bucket that bucket is
  returned, one record longer; a bucket that holds 1000 keeps its count, its records and
  its flags, gets only its link set to the new bucket, and the new bucket, returned as the
  last of the chain, holds the one record.
\<close>

theorem push_row_chain_invariant:
  assumes inv: "chain_inv (heap w) bs"
    and push: "push_row e w (last bs) row is_multiline = Some (w', Some t)"
  shows "chain_inv (heap w') (if nrows (heap w ! last bs) < 1000 then bs else bs @ [t])
       \<and> list_all (\<lambda>b. heap w' ! b = heap w ! b) (butlast bs)
       \<and> rows (heap w' ! t) (nat (nrows (heap w' ! t) - 1)) = Some row
       \<and> multilines (heap w' ! t) (nat (nrows (heap w' ! t) - 1)) = Some is_multiline
       \<and> (if nrows (heap w ! last bs) < 1000
          then t = last bs \<and> nrows (heap w' ! t) = nrows (heap w ! t) + 1
          else t = length (heap w) \<and> nrows (heap w' ! t) = 1
             \<and> heap w' ! last bs = (heap w ! last bs)\<lparr>next_bucket := Some t\<rparr>)"
  using push_row_step [OF inv push] by (auto split: if_splits)

theorem push_row_chain_invariant_witness:
  "chain_inv (heap sample_world) [0]
   \<and> (\<exists>w'. push_row sample_env sample_world 0 sample_row False = Some (w', Some 0)
          \<and> chain_inv (heap w') [0] \<and> nrows (heap w' ! 0) = 1
          \<and> rows (heap w' ! 0) 0 = Some sample_row)
   \<and> chain_inv [empty_bucket\<lparr>nrows := 1000\<rparr>] [0]
   \<and> (\<exists>w'. push_row sample_env (sample_world\<lparr>heap := [empty_bucket\<lparr>nrows := 1000\<rparr>]\<rparr>) 0 sample_row False
             = Some (w', Some 1)
          \<and> chain_inv (heap w') [0, 1] \<and> nrows (heap w' ! 1) = 1
          \<and> heap w' ! 0 = empty_bucket\<lparr>nrows := 1000, next_bucket := Some 1\<rparr>)"
proof -
  let ?full = "sample_world\<lparr>heap := [empty_bucket\<lparr>nrows := 1000\<rparr>]\<rparr>"
  have i1: "chain_inv (heap sample_world) [0]"
    by (simp add: chain_inv_def sample_world_def empty_bucket_def)
  have i2: "chain_inv (heap ?full) [0]"
    by (simp add: chain_inv_def sample_world_def empty_bucket_def)
  obtain w1 where p1: "push_row sample_env sample_world (last [0]) sample_row False = Some (w1, Some 0)"
    by (simp add: push_row_def put_row_def sample_world_def empty_bucket_def Let_def)
  obtain w2 where p2: "push_row sample_env ?full (last [0]) sample_row False = Some (w2, Some 1)"
    by (simp add: push_row_def put_row_def malloc_def sample_world_def sample_env_def empty_bucket_def Let_def)
  show ?thesis
    using i1 i2 p1 p2 push_row_chain_invariant [OF i1 p1] push_row_chain_invariant [OF i2 p2]
    by (auto simp: sample_world_def empty_bucket_def)
qed

text \<open>
  C10. When the bucket passed to \<^verbatim>\<open>push_row\<close> holds 1000 records and \<^verbatim>\<open>malloc\<close>
  fails, \<^verbatim>\<open>push_row\<close> returns NULL and only the count of allocation calls has changed:
  the heap of buckets, so every count, record, flag and link, is as before.
\<close>

theorem push_row_allocation_failure:
  assumes "rb < length (heap w)" and "1000 \<le> nrows (heap w ! rb)"
    and "\<not> malloc_ok e (mallocs w)"
  shows "push_row e w rb row is_multiline = Some (w\<lparr>mallocs := Suc (mallocs w)\<rparr>, None)
       \<and> heap (w\<lparr>mallocs := Suc (mallocs w)\<rparr>) = heap w"
  using assms by (simp add: push_row_def malloc_def)

theorem push_row_allocation_failure_witness:
  "push_row (sample_env\<lparr>malloc_ok := \<lambda>n. False\<rparr>)
       (sample_world\<lparr>heap := [empty_bucket\<lparr>nrows := 1000\<rparr>]\<rparr>) 0 sample_row True
     = Some (sample_world\<lparr>heap := [empty_bucket\<lparr>nrows := 1000\<rparr>], mallocs := 1\<rparr>, None)"
  using push_row_allocation_failure
    [of 0 "sample_world\<lparr>heap := [empty_bucket\<lparr>nrows := 1000\<rparr>]\<rparr>"
        "sample_env\<lparr>malloc_ok := \<lambda>n. False\<rparr>" sample_row True]
  by (simp add: sample_world_def sample_env_def empty_bucket_def)

lemma push_rows_append:
  "push_rows e w rb (rs @ rs') =
     (case push_rows e w rb rs of
        None \<Rightarrow> None
      | Some (w', None) \<Rightarrow> Some (w', None)
      | Some (w', Some rb') \<Rightarrow> push_rows e w' rb' rs')"
  by (induction rs arbitrary: w rb) (auto split: option.splits)

lemma push_rows_room:
  "rb < length (heap w) \<Longrightarrow> 0 \<le> nrows (heap w ! rb) \<Longrightarrow>
   nrows (heap w ! rb) + int (length rs) \<le> 1000 \<Longrightarrow>
   \<exists>w'. push_rows e w rb rs = Some (w', Some rb)
      \<and> length (heap w') = length (heap w)
      \<and> nrows (heap w' ! rb) = nrows (heap w ! rb) + int (length rs)
      \<and> next_bucket (heap w' ! rb) = next_bucket (heap w ! rb)
      \<and> (\<forall>a. a \<noteq> rb \<longrightarrow> heap w' ! a = heap w ! a)
      \<and> mallocs w' = mallocs w"
proof (induction rs arbitrary: w)
  case Nil
  then show ?case by simp
next
  case (Cons r rs)
  obtain row ml where r: "r = (row, ml)" by (cases r)
  let ?w1 = "w\<lparr>heap := (heap w)[rb := (heap w ! rb)\<lparr>rows := (rows (heap w ! rb))(nat (nrows (heap w ! rb)) \<mapsto> row),
               multilines := (multilines (heap w ! rb))(nat (nrows (heap w ! rb)) \<mapsto> ml),
               nrows := nrows (heap w ! rb) + 1\<rparr>]\<rparr>"
  from Cons.prems have lt: "nrows (heap w ! rb) < 1000" by simp
  have p: "push_row e w rb row ml = Some (?w1, Some rb)"
    using push_row_room [OF Cons.prems(1,2) lt] .
  have "\<exists>w'. push_rows e ?w1 rb rs = Some (w', Some rb)
      \<and> length (heap w') = length (heap ?w1)
      \<and> nrows (heap w' ! rb) = nrows (heap ?w1 ! rb) + int (length rs)
      \<and> next_bucket (heap w' ! rb) = next_bucket (heap ?w1 ! rb)
      \<and> (\<forall>a. a \<noteq> rb \<longrightarrow> heap w' ! a = heap ?w1 ! a)
      \<and> mallocs w' = mallocs ?w1"
    using Cons.prems by (intro Cons.IH) simp_all
  then show ?case
    using Cons.prems(1) by (auto simp: r p)
qed

text \<open>
  C3. Starting from one empty bucket (no records, no link): after 1000 records there is
  still that one bucket, with 1000 records and no link; after 1001 records (the allocation
  succeeding) the first bucket holds 1000 and links to a second that holds 1; after 2000
  records the two buckets hold 1000 each and the second has no link.
\<close>

theorem bucket_chaining:
  assumes h: "heap w = [b]" and n: "nrows b = 0" and nx: "next_bucket b = None"
  shows "(length rs = 1000 \<longrightarrow>
           (\<exists>w'. push_rows e w 0 rs = Some (w', Some 0) \<and> length (heap w') = 1
              \<and> nrows (heap w' ! 0) = 1000 \<and> next_bucket (heap w' ! 0) = None))
       \<and> (length rs = 1001 \<and> malloc_ok e (mallocs w) \<longrightarrow>
           (\<exists>w'. push_rows e w 0 rs = Some (w', Some 1) \<and> length (heap w') = 2
              \<and> nrows (heap w' ! 0) = 1000 \<and> next_bucket (heap w' ! 0) = Some 1
              \<and> nrows (heap w' ! 1) = 1 \<and> next_bucket (heap w' ! 1) = None))
       \<and> (length rs = 2000 \<and> malloc_ok e (mallocs w) \<longrightarrow>
           (\<exists>w'. push_rows e w 0 rs = Some (w', Some 1) \<and> length (heap w') = 2
              \<and> nrows (heap w' ! 0) = 1000 \<and> next_bucket (heap w' ! 0) = Some 1
              \<and> nrows (heap w' ! 1) = 1000 \<and> next_bucket (heap w' ! 1) = None))"
proof -
  have first: "\<exists>w1. push_rows e w 0 xs = Some (w1, Some 0) \<and> length (heap w1) = 1
      \<and> nrows (heap w1 ! 0) = 1000 \<and> next_bucket (heap w1 ! 0) = None \<and> mallocs w1 = mallocs w"
    if "length xs = 1000" for xs
    using push_rows_room [of 0 w xs e] that h n nx by auto
  have second: "\<exists>w2. push_rows e w 0 (xs @ [x]) = Some (w2, Some 1) \<and> length (heap w2) = 2
      \<and> nrows (heap w2 ! 0) = 1000 \<and> next_bucket (heap w2 ! 0) = Some 1
      \<and> nrows (heap w2 ! 1) = 1 \<and> next_bucket (heap w2 ! 1) = None"
    if "length xs = 1000" "malloc_ok e (mallocs w)" for xs x
  proof -
    from first [OF that(1)] obtain w1 where w1: "push_rows e w 0 xs = Some (w1, Some 0)"
      "length (heap w1) = 1" "nrows (heap w1 ! 0) = 1000" "next_bucket (heap w1 ! 0) = None"
      "mallocs w1 = mallocs w" by blast
    obtain row ml where x: "x = (row, ml)" by (cases x)
    have "push_row e w1 0 row ml =
       Some (w1\<lparr>mallocs := Suc (mallocs w1),
             heap := (heap w1)[0 := (heap w1 ! 0)\<lparr>next_bucket := Some (length (heap w1))\<rparr>]
                     @ [\<lparr>nrows = 1, rows = [0 \<mapsto> row], multilines = [0 \<mapsto> ml],
                         allocated = True, next_bucket = None\<rparr>]\<rparr>, Some (length (heap w1)))"
      using w1 that(2) by (intro push_row_full) simp_all
    then show ?thesis
      using w1 by (simp add: push_rows_append x nth_append)
  qed
  have third: "\<exists>w3. push_rows e w 0 ((xs @ [x]) @ ys) = Some (w3, Some 1) \<and> length (heap w3) = 2
      \<and> nrows (heap w3 ! 0) = 1000 \<and> next_bucket (heap w3 ! 0) = Some 1
      \<and> nrows (heap w3 ! 1) = 1000 \<and> next_bucket (heap w3 ! 1) = None"
    if "length xs = 1000" "malloc_ok e (mallocs w)" "length ys = 999" for xs x ys
  proof -
    from second [OF that(1,2), of x] obtain w2 where w2: "push_rows e w 0 (xs @ [x]) = Some (w2, Some 1)"
      "length (heap w2) = 2" "nrows (heap w2 ! 0) = 1000" "next_bucket (heap w2 ! 0) = Some 1"
      "nrows (heap w2 ! 1) = 1" "next_bucket (heap w2 ! 1) = None" by blast
    from push_rows_room [of 1 w2 ys e] w2 that(3)
    obtain w3 where "push_rows e w2 1 ys = Some (w3, Some 1)" "length (heap w3) = length (heap w2)"
      "nrows (heap w3 ! 1) = nrows (heap w2 ! 1) + int (length ys)"
      "next_bucket (heap w3 ! 1) = next_bucket (heap w2 ! 1)"
      "\<forall>a. a \<noteq> 1 \<longrightarrow> heap w3 ! a = heap w2 ! a" by auto
    moreover have "push_rows e w 0 ((xs @ [x]) @ ys) = push_rows e w2 1 ys"
      by (subst push_rows_append) (simp add: w2(1))
    ultimately show ?thesis
      using w2 that(3) by simp
  qed
  have c1: ?thesis if "length rs = 1000"
    using first [OF that] that by auto
  have c2: ?thesis if len: "length rs = 1001" and ok: "malloc_ok e (mallocs w)"
  proof -
    have "rs = take 1000 rs @ rs ! 1000 # drop (Suc 1000) rs"
      using len by (intro id_take_nth_drop) simp
    with len have rs: "rs = take 1000 rs @ [rs ! 1000]" by simp
    have "length (take 1000 rs) = 1000" using len by simp
    from second [OF this ok, of "rs ! 1000"] rs len show ?thesis by auto
  qed
  have c3: ?thesis if len: "length rs = 2000" and ok: "malloc_ok e (mallocs w)"
  proof -
    have "rs = take 1000 rs @ rs ! 1000 # drop (Suc 1000) rs"
      using len by (intro id_take_nth_drop) simp
    then have rs: "rs = (take 1000 rs @ [rs ! 1000]) @ drop 1001 rs" by simp
    have "length (take 1000 rs) = 1000" "length (drop 1001 rs) = 999" using len by simp_all
    from third [OF this(1) ok this(2), of "rs ! 1000"] rs len show ?thesis by auto
  qed
  show ?thesis
    using c1 c2 c3 by (cases "length rs = 1000"; cases "length rs = 1001"; cases "length rs = 2000") simp_all
qed

theorem bucket_chaining_witness:
  "(\<exists>w'. push_rows sample_env sample_world 0 (replicate 1000 (sample_row, False)) = Some (w', Some 0)
        \<and> length (heap w') = 1 \<and> nrows (heap w' ! 0) = 1000 \<and> next_bucket (heap w' ! 0) = None)
   \<and> (\<exists>w'. push_rows sample_env sample_world 0 (replicate 1001 (sample_row, False)) = Some (w', Some 1)
        \<and> length (heap w') = 2 \<and> nrows (heap w' ! 0) = 1000 \<and> next_bucket (heap w' ! 0) = Some 1
        \<and> nrows (heap w' ! 1) = 1 \<and> next_bucket (heap w' ! 1) = None)
   \<and> (\<exists>w'. push_rows sample_env sample_world 0 (replicate 2000 (sample_row, False)) = Some (w', Some 1)
        \<and> length (heap w') = 2 \<and> nrows (heap w' ! 0) = 1000 \<and> next_bucket (heap w' ! 0) = Some 1
        \<and> nrows (heap w' ! 1) = 1000 \<and> next_bucket (heap w' ! 1) = None)"
proof -
  have h: "heap sample_world = [empty_bucket]" and n: "nrows empty_bucket = 0"
    and nx: "next_bucket empty_bucket = None" and ok: "malloc_ok sample_env (mallocs sample_world)"
    by (simp_all add: sample_world_def empty_bucket_def sample_env_def)
  show ?thesis
    using bucket_chaining [OF h n nx, of "replicate 1000 (sample_row, False)" sample_env]
      bucket_chaining [OF h n nx, of "replicate 1001 (sample_row, False)" sample_env]
      bucket_chaining [OF h n nx, of "replicate 2000 (sample_row, False)" sample_env] ok
    by simp
qed

subsection \<open>The loops and the early exits of \<^verbatim>\<open>pg_exec_query\<close>\<close>

lemma for_loop_append:
  "for_loop (xs @ ys) body s =
     (case for_loop xs body s of Inl out \<Rightarrow> Inl out | Inr s' \<Rightarrow> for_loop ys body s')"
  by (induction xs arbitrary: s) (auto split: sum.splits)

lemma for_loop_Inl:
  assumes "for_loop xs body s = Inl out"
    and "\<And>i s out. body i s = Inl out \<Longrightarrow> P out"
  shows "P out"
  using assms(1) by (induction xs arbitrary: s) (auto split: sum.splits intro: assms(2))

lemma for_loop_upt_rule:
  assumes "I 0 s"
    and "\<And>i s s'. i < n \<Longrightarrow> I i s \<Longrightarrow> body i s = Inr s' \<Longrightarrow> I (Suc i) s'"
    and "\<And>i s out. i < n \<Longrightarrow> I i s \<Longrightarrow> body i s = Inl out \<Longrightarrow> Q out"
  shows "case for_loop [0..<n] body s of Inl out \<Rightarrow> Q out | Inr s' \<Rightarrow> I n s'"
  using assms(2,3)
proof (induction n)
  case 0
  show ?case using assms(1) by simp
next
  case (Suc n)
  have ih: "case for_loop [0..<n] body s of Inl out \<Rightarrow> Q out | Inr s' \<Rightarrow> I n s'"
  proof (rule Suc.IH)
    fix i s s' assume "i < n" "I i s" "body i s = Inr s'"
    then show "I (Suc i) s'" using Suc.prems(1) [of i s s'] by simp
  next
    fix i s out assume "i < n" "I i s" "body i s = Inl out"
    then show "Q out" using Suc.prems(2) [of i s out] by simp
  qed
  show ?case
  proof (cases "for_loop [0..<n] body s")
    case (Inl out)
    with ih show ?thesis by (simp add: for_loop_append)
  next
    case (Inr s1)
    with ih have "I n s1" by simp
    then show ?thesis
      using Inr Suc.prems(1) [of n s1] Suc.prems(2) [of n s1]
      by (cases "body n s1") (simp_all add: for_loop_append)
  qed
qed

lemma for_loop_upt_Inr:
  assumes "for_loop [0..<n] body s = Inr s'" and "I 0 s"
    and "\<And>i s s'. i < n \<Longrightarrow> I i s \<Longrightarrow> body i s = Inr s' \<Longrightarrow> I (Suc i) s'"
  shows "I n s'"
  using for_loop_upt_rule [of I s n body "\<lambda>out. True"] assms by simp

lemma new_row_Inl: "new_row e n text wl = Inl out \<Longrightarrow> fatal_alloc out"
  by (auto simp: new_row_def malloc_def EXIT_OUT_OF_MEMORY_def PQclear_def PQfinish_def fatal_alloc_def
      split: prod.splits if_splits bool.splits)

lemma header_field_Inl: "header_field e opts i wl = Inl out \<Longrightarrow> fatal_alloc out"
  by (auto simp: header_field_def fatal_alloc_def split: prod.splits option.splits)

lemma data_field_Inl: "data_field e opts i j wl = Inl out \<Longrightarrow> fatal_alloc out"
  by (auto simp: data_field_def fatal_alloc_def split: prod.splits option.splits)

lemma push_checked_Inl: "push_checked e wl = Inl out \<Longrightarrow> fatal_alloc out"
  by (auto simp: push_checked_def EXIT_OUT_OF_MEMORY_def PQclear_def PQfinish_def fatal_alloc_def
      split: prod.splits option.splits)

lemma store_header_Inl: "store_header e opts wl = Inl out \<Longrightarrow> fatal_alloc out"
  unfolding store_header_def
  by (auto split: sum.splits
      dest: new_row_Inl push_checked_Inl for_loop_Inl [where P = fatal_alloc, OF _ header_field_Inl])

lemma store_tuple_Inl: "store_tuple e opts i wl = Inl out \<Longrightarrow> fatal_alloc out"
  unfolding store_tuple_def
  by (auto split: sum.splits
      dest: new_row_Inl push_checked_Inl for_loop_Inl [where P = fatal_alloc, OF _ data_field_Inl])

text \<open>
  The recoverable path: no connection, or no tabular result, and a message that fits into
  \<^verbatim>\<open>errmsg\<close> behind its prefix (992 bytes behind the 31 of the first, 996 behind the 27 of
  the second). The call returns \<open>false\<close>, \<^verbatim>\<open>*err\<close> is the formatted message, result and
  connection are released, the store is empty and nothing was allocated.
\<close>

lemma pg_exec_query_recoverable:
  assumes "rb0 < length (heap w0)"
    and "\<not> PQstatus_ok e \<or> \<not> PQresultStatus_ok e"
    and "length (if \<not> PQstatus_ok e then PQerrorMessage_connect e else PQerrorMessage_exec e)
           \<le> (if \<not> PQstatus_ok e then 992 else 996)"
  shows "\<exists>w'. pg_exec_query e opts rb0 mc0 w0 = Return False w'
           \<and> err w' = Some (if \<not> PQstatus_ok e
                             then ''Connection to database failed: '' @ PQerrorMessage_connect e
                             else ''Query doesn't return data: '' @ PQerrorMessage_exec e)
           \<and> \<not> result_open w' \<and> \<not> conn_open w'
           \<and> length (heap w') = length (heap w0)
           \<and> nrows (heap w' ! rb0) = 0 \<and> next_bucket (heap w' ! rb0) = None
           \<and> mallocs w' = mallocs w0 \<and> pdesc w' = pdesc w0"
  using assms
  by (cases "PQstatus_ok e")
    (simp_all add: pg_exec_query_def Let_def sprintf_errmsg_def RELEASE_AND_LEAVE_def
      PQclear_def PQfinish_def)

text \<open>
  C7. A query error whose message has 997 bytes: \<^verbatim>\<open>sprintf\<close> writes the 27 bytes of
  \<open>Query doesn't return data: \<close>, the message and the terminator, 1025 bytes, into the
  1024 bytes of \<^verbatim>\<open>errmsg\<close>, so the call does not return \<open>false\<close> with a message but has
  undefined behaviour. (\<open>pg_exec_query_recoverable\<close> above is the recoverable path for
  messages that fit.)
\<close>

theorem query_error_message_overflow:
  "pg_exec_query (sample_env\<lparr>PQresultStatus_ok := False,
                            PQerrorMessage_exec := replicate 997 CHR ''x''\<rparr>)
       sample_opts 0 False sample_world = Undefined_behaviour"
  by (simp add: pg_exec_query_def Let_def sprintf_errmsg_def sample_env_def sample_world_def)

text \<open>
  C8. In a build without \<^verbatim>\<open>HAVE_POSTGRESQL\<close> the function returns \<open>false\<close> and
  \<^verbatim>\<open>*err\<close> is what it was before the call: the message is assigned to the parameter
  \<^verbatim>\<open>err\<close>, not to \<^verbatim>\<open>*err\<close>.
\<close>

theorem no_postgresql_leaves_err:
  "\<exists>w'. pg_exec_query_no_postgresql w = Return False w' \<and> err w' = err w"
  by (simp add: pg_exec_query_no_postgresql_def Let_def)

subsection \<open>A call that returns \<open>true\<close>\<close>

lemma pg_exec_query_success:
  assumes "pg_exec_query e opts rb0 mc0 w0 = Return True w'"
  obtains wh lh w5 l5 where
    "rb0 < length (heap w0)" and "PQstatus_ok e" and "PQresultStatus_ok e"
    and "PQnfields e \<le> 1024"
    and "store_header e opts (header_world e rb0 w0, entry_locals rb0 mc0) = Inr (wh, lh)"
    and "for_loop [0..<nat (PQntuples e)] (store_tuple e opts) (wh, lh) = Inr (w5, l5)"
    and "w' = (PQfinish (PQclear w5))\<lparr>err := None\<rparr>"
proof -
  have nf: "\<not> fatal_alloc (Return True w')" by (simp add: fatal_alloc_def)
  from assms have v: "rb0 < length (heap w0)" and c: "PQstatus_ok e"
    by (auto simp: pg_exec_query_def Let_def RELEASE_AND_LEAVE_def split: if_splits option.splits)
  from assms v c have r: "PQresultStatus_ok e"
    by (auto simp: pg_exec_query_def Let_def RELEASE_AND_LEAVE_def split: if_splits option.splits)
  from assms v c r have n: "PQnfields e \<le> 1024"
    by (auto simp: pg_exec_query_def Let_def RELEASE_AND_EXIT_def split: if_splits)
  from assms v c r n have rest:
    "(case store_header e opts (header_world e rb0 w0, entry_locals rb0 mc0) of
        Inl out \<Rightarrow> out
      | Inr wl1 \<Rightarrow>
          (case for_loop [0..<nat (PQntuples e)] (store_tuple e opts) wl1 of
             Inl out \<Rightarrow> out
           | Inr (w5, l5) \<Rightarrow> Return True ((PQfinish (PQclear w5))\<lparr>err := None\<rparr>))) = Return True w'"
    by (simp add: pg_exec_query_def Let_def header_world_def entry_locals_def)
  show thesis
  proof (cases "store_header e opts (header_world e rb0 w0, entry_locals rb0 mc0)")
    case (Inl out)
    with rest store_header_Inl [OF Inl] nf show thesis by simp
  next
    case h: (Inr wl1)
    show thesis
    proof (cases "for_loop [0..<nat (PQntuples e)] (store_tuple e opts) wl1")
      case (Inl out)
      have "fatal_alloc out"
        by (rule for_loop_Inl [OF Inl]) (rule store_tuple_Inl)
      with rest h Inl nf show thesis by simp
    next
      case (Inr wl5)
      with rest h that [OF v c r n, of "fst wl1" "snd wl1" "fst wl5" "snd wl5"] show thesis
        by (cases wl5) auto
    qed
  qed
qed

lemma sample_run:
  "case pg_exec_query sample_env sample_opts 0 False sample_world of
     Return b w \<Rightarrow> b | Leave_ncurses m w \<Rightarrow> False | Undefined_behaviour \<Rightarrow> False"
  by code_simp

lemma sample_store_tuple:
  "case store_tuple sample_env sample_opts 0 (sample_world, sample_locals) of
     Inl out \<Rightarrow> False | Inr wl \<Rightarrow> True"
  by code_simp

subsection \<open>The alignment classes\<close>

lemma types_set_types:
  "types (set_types e n pd) i =
     (if i < nat n then column_type_class (PQftype e i) else types pd i)"
proof -
  have "types (fold (\<lambda>i pd. pd\<lparr>types := (types pd)(i := column_type_class (PQftype e i))\<rparr>) [0..<k] pd) i =
     (if i < k then column_type_class (PQftype e i) else types pd i)" for k
    by (induction k) auto
  then show ?thesis by (simp add: set_types_def)
qed

lemma new_row_types: "new_row e n text (w, l) = Inr (w', l') \<Longrightarrow> types (pdesc w') = types (pdesc w)"
  by (auto simp: new_row_def malloc_def split: prod.splits if_splits bool.splits)

lemma header_field_types:
  "header_field e opts i (w, l) = Inr (w', l') \<Longrightarrow> types (pdesc w') = types (pdesc w)"
  by (auto simp: header_field_def split: prod.splits option.splits)

lemma data_field_types:
  "data_field e opts i j (w, l) = Inr (w', l') \<Longrightarrow> types (pdesc w') = types (pdesc w)"
  by (auto simp: data_field_def split: prod.splits option.splits)

lemma push_row_pdesc: "push_row e w rb row ml = Some (w', r) \<Longrightarrow> pdesc w' = pdesc w"
  by (auto simp: push_row_def put_row_def malloc_def Let_def split: if_splits prod.splits bool.splits)

lemma push_checked_types:
  "push_checked e (w, l) = Inr (w', l') \<Longrightarrow> types (pdesc w') = types (pdesc w)"
  by (auto simp: push_checked_def split: option.splits dest: push_row_pdesc)

lemma store_header_types:
  assumes "store_header e opts (w, l) = Inr (w', l')"
  shows "types (pdesc w') = types (pdesc w)"
proof -
  from assms obtain w1 l1 w2 l2 where
    1: "new_row e (PQnfields e) (PQfname e) (w, l) = Inr (w1, l1)" and
    2: "for_loop [0..<nat (PQnfields e)] (header_field e opts) (w1, l1) = Inr (w2, l2)" and
    3: "push_checked e (w2, l2) = Inr (w', l')"
    by (auto simp: store_header_def split: sum.splits)
  have "types (pdesc (fst (w2, l2))) = types (pdesc w1)"
    by (rule for_loop_upt_Inr [OF 2, where I = "\<lambda>i s. types (pdesc (fst s)) = types (pdesc w1)"])
      (auto dest: header_field_types)
  with new_row_types [OF 1] push_checked_types [OF 3] show ?thesis by simp
qed

lemma store_tuple_types:
  assumes "store_tuple e opts k (w, l) = Inr (w', l')"
  shows "types (pdesc w') = types (pdesc w)"
proof -
  from assms obtain w1 l1 w2 l2 where
    1: "new_row e (PQnfields e) (PQgetvalue e k) (w, l) = Inr (w1, l1)" and
    2: "for_loop [0..<nat (PQnfields e)] (data_field e opts k) (w1, l1) = Inr (w2, l2)" and
    3: "push_checked e (w2, l2) = Inr (w', l')"
    by (auto simp: store_tuple_def split: sum.splits)
  have "types (pdesc (fst (w2, l2))) = types (pdesc w1)"
    by (rule for_loop_upt_Inr [OF 2, where I = "\<lambda>i s. types (pdesc (fst s)) = types (pdesc w1)"])
      (auto dest: data_field_types)
  with new_row_types [OF 1] push_checked_types [OF 3] show ?thesis by simp
qed

text \<open>
  C9. When \<^verbatim>\<open>pg_exec_query\<close> returns \<open>true\<close>, \<^verbatim>\<open>pdesc->types[i]\<close> of every column
  \<open>i\<close> is \<^verbatim>\<open>column_type_class\<close> of the column's declared type, whatever the data rows
  hold, and the entries past the column count are as the caller left them; and storing a
  data row (lines 225-257) leaves all of \<^verbatim>\<open>pdesc->types\<close> as it was.
\<close>

theorem alignment_class_fixed:
  "(pg_exec_query e opts rb0 mc0 w0 = Return True w' \<longrightarrow>
      (\<forall>i. types (pdesc w') i =
            (if i < nat (PQnfields e) then column_type_class (PQftype e i)
             else types (pdesc w0) i)))
   \<and> (store_tuple e opts k (w, l) = Inr (w1, l1) \<longrightarrow> types (pdesc w1) = types (pdesc w))"
proof (intro conjI impI allI)
  fix i
  assume run: "pg_exec_query e opts rb0 mc0 w0 = Return True w'"
  from run obtain wh lh w5 l5 where
    h: "store_header e opts (header_world e rb0 w0, entry_locals rb0 mc0) = Inr (wh, lh)" and
    t: "for_loop [0..<nat (PQntuples e)] (store_tuple e opts) (wh, lh) = Inr (w5, l5)" and
    w': "w' = (PQfinish (PQclear w5))\<lparr>err := None\<rparr>"
    by (rule pg_exec_query_success)
  have "types (pdesc (fst (w5, l5))) = types (pdesc wh)"
    by (rule for_loop_upt_Inr [OF t, where I = "\<lambda>i s. types (pdesc (fst s)) = types (pdesc wh)"])
      (auto dest: store_tuple_types)
  with store_header_types [OF h] have "types (pdesc w') = types (pdesc (header_world e rb0 w0))"
    by (simp add: w' PQclear_def PQfinish_def)
  then show "types (pdesc w') i =
            (if i < nat (PQnfields e) then column_type_class (PQftype e i)
             else types (pdesc w0) i)"
    by (simp add: header_world_def types_set_types)
next
  assume "store_tuple e opts k (w, l) = Inr (w1, l1)"
  then show "types (pdesc w1) = types (pdesc w)" by (rule store_tuple_types)
qed

theorem alignment_class_fixed_witness:
  "(\<exists>w'. pg_exec_query sample_env sample_opts 0 False sample_world = Return True w'
       \<and> types (pdesc w') 0 = CHR ''d'' \<and> types (pdesc w') 1 = CHR ''a''
       \<and> types (pdesc w') 2 = types (pdesc sample_world) 2)
   \<and> (\<exists>w1 l1. store_tuple sample_env sample_opts 0 (sample_world, sample_locals) = Inr (w1, l1)
       \<and> types (pdesc w1) = types (pdesc sample_world))"
proof -
  from sample_run obtain w' where
    r: "pg_exec_query sample_env sample_opts 0 False sample_world = Return True w'"
    by (auto split: outcome.splits)
  from sample_store_tuple obtain w1 l1 where
    t: "store_tuple sample_env sample_opts 0 (sample_world, sample_locals) = Inr (w1, l1)"
    by (auto split: sum.splits)
  from alignment_class_fixed [of sample_env sample_opts 0 False sample_world w' 0 sample_world sample_locals w1 l1] r t
  show ?thesis
    by (simp add: sample_env_def column_type_class_def INT4OID_def INT2OID_def INT8OID_def
        FLOAT4OID_def FLOAT8OID_def NUMERICOID_def OIDOID_def XIDOID_def CIDOID_def CASHOID_def)
qed

subsection \<open>Building a row\<close>

lemma c_str_copy: "c_string s \<Longrightarrow> c_str (map Some s @ Some NUL # rest) = Some s"
  by (induction s) (auto simp: c_string_def)

lemma packed_Suc: "packed text (Suc n) = packed text n @ map Some (text n) @ [Some NUL]"
  by (simp add: packed_def)

lemma length_packed: "length (packed text n) = field_offset text n"
  by (induction n) (simp_all add: packed_Suc, simp add: packed_def)

lemma field_offset_mono: "i \<le> j \<Longrightarrow> field_offset text i \<le> field_offset text j"
  by (induction j) (auto simp: le_Suc_eq)

lemma packed_split:
  "i < n \<Longrightarrow> \<exists>rest. packed text n = packed text i @ map Some (text i) @ Some NUL # rest"
proof (induction n)
  case 0
  then show ?case by simp
next
  case (Suc n)
  show ?case
  proof (cases "i = n")
    case True
    then show ?thesis by (simp add: packed_Suc)
  next
    case False
    with Suc.prems have "i < n" by simp
    from Suc.IH [OF this] obtain rest where
      "packed text n = packed text i @ map Some (text i) @ Some NUL # rest" ..
    then show ?thesis by (simp add: packed_Suc)
  qed
qed

lemma drop_packed:
  assumes "i < n" and "take (field_offset text n) buf = packed text n"
  shows "\<exists>rest. drop (field_offset text i) buf = map Some (text i) @ Some NUL # rest"
proof -
  from packed_split [OF assms(1)] obtain rest where
    p: "packed text n = packed text i @ map Some (text i) @ Some NUL # rest" ..
  have "buf = packed text n @ drop (field_offset text n) buf"
    using assms(2) append_take_drop_id [of "field_offset text n" buf] by simp
  with p have "buf = packed text i @ map Some (text i) @ Some NUL # (rest @ drop (field_offset text n) buf)"
    by simp
  then have "drop (field_offset text i) buf = map Some (text i) @ Some NUL # (rest @ drop (field_offset text n) buf)"
    by (metis append_eq_conv_conj length_packed)
  then show ?thesis ..
qed

lemma slice_packed:
  assumes "i < n" and "take (field_offset text n) buf = packed text n"
  shows "take (length (text i) + 1) (drop (field_offset text i) buf) = map Some (text i) @ [Some NUL]"
proof -
  from drop_packed [OF assms] obtain rest where
    "drop (field_offset text i) buf = map Some (text i) @ Some NUL # rest" ..
  then show ?thesis by simp
qed

lemma read_field_packed:
  assumes "i < n" and "c_string (text i)" and "take (field_offset text n) buf = packed text n"
  shows "read_field buf (field_offset text i) = Some (text i)"
proof -
  from drop_packed [OF assms(1,3)] obtain rest where
    "drop (field_offset text i) buf = map Some (text i) @ Some NUL # rest" ..
  then show ?thesis
    using assms(2) by (simp add: read_field_def c_str_copy)
qed

lemma copy_field_step:
  assumes inv: "row_filled text j l" and cs: "c_string (text j)"
    and cp: "copy_field j (text j) l = Some (l', str)"
  shows "str = text j \<and> row_filled text (Suc j) l'
       \<and> r_nfields (l_row l') = r_nfields (l_row l)
       \<and> length (payload (l_row l')) = length (payload (l_row l))
       \<and> l_rb l' = l_rb l \<and> multiline_row l' = multiline_row l \<and> multiline_col l' = multiline_col l"
proof -
  let ?p = "field_offset text j" and ?buf = "payload (l_row l)" and ?s = "text j"
  from inv have lb: "locbuf l = ?p" and tk: "take ?p ?buf = packed text j"
    and fl: "\<And>i. r_fields (l_row l) i = (if i < j then Some (field_offset text i) else None)"
    by (simp_all add: row_filled_def)
  from cp lb have fits: "?p + length ?s + 1 \<le> length ?buf"
    by (auto simp: copy_field_def strcpy_def split: if_splits option.splits)
  define buf' where "buf' = take ?p ?buf @ map Some ?s @ [Some NUL] @ drop (?p + length ?s + 1) ?buf"
  from fits lb have sc: "strcpy ?buf (locbuf l) ?s = Some buf'"
    by (simp add: strcpy_def buf'_def)
  have len: "length buf' = length ?buf" using fits by (simp add: buf'_def)
  have "buf' = packed text (Suc j) @ drop (?p + length ?s + 1) ?buf"
    by (simp add: buf'_def packed_Suc tk)
  then have tk': "take (field_offset text (Suc j)) buf' = packed text (Suc j)"
    by (metis append_eq_conv_conj length_packed)
  have rd: "read_field buf' ?p = Some ?s"
    using fits cs by (simp add: read_field_def buf'_def c_str_copy)
  from cp sc rd lb have l': "l' = l\<lparr>l_row := (l_row l)\<lparr>payload := buf',
                               r_fields := (r_fields (l_row l))(j \<mapsto> ?p)\<rparr>,
                               locbuf := ?p + length ?s + 1\<rparr>" and str: "str = ?s"
    by (auto simp: copy_field_def)
  show ?thesis
    using fits len tk' fl by (auto simp: str l' row_filled_def)
qed

lemma new_row_start:
  assumes "new_row e nf text (w, l) = Inr (w1, l1)"
  shows "row_filled text 0 l1 \<and> r_nfields (l_row l1) = nf \<and> l_rb l1 = l_rb l
       \<and> multiline_col l1 = multiline_col l \<and> w1 = w\<lparr>mallocs := Suc (Suc (mallocs w))\<rparr>"
  using assms
  by (auto simp: new_row_def malloc_def row_filled_def packed_def split: prod.splits if_splits bool.splits)

lemma header_field_step:
  assumes inv: "row_filled (PQfname e) j l" and cs: "c_string (PQfname e j)"
    and st: "header_field e opts j (w, l) = Inr (w', l')"
  shows "row_filled (PQfname e) (Suc j) l' \<and> r_nfields (l_row l') = r_nfields (l_row l)
       \<and> l_rb l' = l_rb l
       \<and> w' = w\<lparr>pdesc := (pdesc w)\<lparr>widths := (widths (pdesc w))(j := display_width e opts (PQfname e j)),
                                    pd_multilines := (pd_multilines (pdesc w))(j := multiline_col l')\<rparr>\<rparr>"
proof -
  from st obtain l1 str where cp: "copy_field j (PQfname e j) l = Some (l1, str)"
    by (auto simp: header_field_def split: option.splits)
  note step = copy_field_step [OF inv cs cp]
  obtain wd mc where fi: "field_info e opts (PQfname e j) (multiline_col l1) = (wd, mc)"
    by (cases "field_info e opts (PQfname e j) (multiline_col l1)")
  with field_info_width [of e opts "PQfname e j" "multiline_col l1"]
  have wd: "wd = display_width e opts (PQfname e j)" by simp
  from st cp fi step show ?thesis
    by (auto simp: header_field_def wd row_filled_def)
qed

lemma data_field_step:
  assumes inv: "row_filled (PQgetvalue e k) j l" and cs: "c_string (PQgetvalue e k j)"
    and st: "data_field e opts k j (w, l) = Inr (w', l')"
  shows "row_filled (PQgetvalue e k) (Suc j) l' \<and> r_nfields (l_row l') = r_nfields (l_row l)
       \<and> l_rb l' = l_rb l
       \<and> w' = w\<lparr>pdesc := (pdesc w)\<lparr>widths := (widths (pdesc w))
                                        (j := max_int (widths (pdesc w) j) (display_width e opts (PQgetvalue e k j))),
                                    pd_multilines := (pd_multilines (pdesc w))
                                        (j := (pd_multilines (pdesc w) j \<or> multiline_col l'))\<rparr>\<rparr>"
proof -
  from st obtain l1 str where cp: "copy_field j (PQgetvalue e k j) l = Some (l1, str)"
    by (auto simp: data_field_def split: option.splits)
  note step = copy_field_step [OF inv cs cp]
  obtain wd mc where fi: "field_info e opts (PQgetvalue e k j) (multiline_col l1) = (wd, mc)"
    by (cases "field_info e opts (PQgetvalue e k j) (multiline_col l1)")
  with field_info_width [of e opts "PQgetvalue e k j" "multiline_col l1"]
  have wd: "wd = display_width e opts (PQgetvalue e k j)" by simp
  from st cp fi step show ?thesis
    by (auto simp: data_field_def wd row_filled_def)
qed

lemma header_loop:
  assumes run: "for_loop [0..<n] (header_field e opts) (w, l) = Inr (w', l')"
    and start: "row_filled (PQfname e) 0 l"
    and cs: "\<And>j. j < n \<Longrightarrow> c_string (PQfname e j)"
  shows "row_filled (PQfname e) n l' \<and> r_nfields (l_row l') = r_nfields (l_row l)
       \<and> l_rb l' = l_rb l \<and> w' = w\<lparr>pdesc := pdesc w'\<rparr>
       \<and> (\<forall>i. widths (pdesc w') i =
               (if i < n then display_width e opts (PQfname e i) else widths (pdesc w) i))"
proof -
  let ?I = "\<lambda>j s. row_filled (PQfname e) j (snd s) \<and> r_nfields (l_row (snd s)) = r_nfields (l_row l)
       \<and> l_rb (snd s) = l_rb l \<and> fst s = w\<lparr>pdesc := pdesc (fst s)\<rparr>
       \<and> (\<forall>i. widths (pdesc (fst s)) i =
               (if i < j then display_width e opts (PQfname e i) else widths (pdesc w) i))"
  have "?I n (w', l')"
  proof (rule for_loop_upt_Inr [OF run, where I = ?I])
    show "?I 0 (w, l)" using start by simp
  next
    fix j s s'
    assume j: "j < n" and I: "?I j s" and b: "header_field e opts j s = Inr s'"
    obtain wa la where s: "s = (wa, la)" by (cases s)
    obtain wb lb where s': "s' = (wb, lb)" by (cases s')
    from I s have rf: "row_filled (PQfname e) j la" by simp
    from header_field_step [OF rf cs [OF j] b [unfolded s s']] I
    show "?I (Suc j) s'"
      by (auto simp: s s' less_Suc_eq) (metis world.update_convs(2) world.surjective)
  qed
  then show ?thesis by simp
qed

lemma data_loop:
  assumes run: "for_loop [0..<n] (data_field e opts k) (w, l) = Inr (w', l')"
    and start: "row_filled (PQgetvalue e k) 0 l"
    and cs: "\<And>j. j < n \<Longrightarrow> c_string (PQgetvalue e k j)"
  shows "row_filled (PQgetvalue e k) n l' \<and> r_nfields (l_row l') = r_nfields (l_row l)
       \<and> l_rb l' = l_rb l \<and> w' = w\<lparr>pdesc := pdesc w'\<rparr>
       \<and> (\<forall>i. widths (pdesc w') i =
               (if i < n then max_int (widths (pdesc w) i) (display_width e opts (PQgetvalue e k i))
                else widths (pdesc w) i))"
proof -
  let ?I = "\<lambda>j s. row_filled (PQgetvalue e k) j (snd s) \<and> r_nfields (l_row (snd s)) = r_nfields (l_row l)
       \<and> l_rb (snd s) = l_rb l \<and> fst s = w\<lparr>pdesc := pdesc (fst s)\<rparr>
       \<and> (\<forall>i. widths (pdesc (fst s)) i =
               (if i < j then max_int (widths (pdesc w) i) (display_width e opts (PQgetvalue e k i))
                else widths (pdesc w) i))"
  have "?I n (w', l')"
  proof (rule for_loop_upt_Inr [OF run, where I = ?I])
    show "?I 0 (w, l)" using start by simp
  next
    fix j s s'
    assume j: "j < n" and I: "?I j s" and b: "data_field e opts k j s = Inr s'"
    obtain wa la where s: "s = (wa, la)" by (cases s)
    obtain wb lb where s': "s' = (wb, lb)" by (cases s')
    from I s have rf: "row_filled (PQgetvalue e k) j la" by simp
    from data_field_step [OF rf cs [OF j] b [unfolded s s']] I
    show "?I (Suc j) s'"
      by (auto simp: s s' less_Suc_eq) (metis world.update_convs(2) world.surjective)
  qed
  then show ?thesis by simp
qed

lemma row_filled_holds:
  assumes rf: "row_filled text n l" and nf: "r_nfields (l_row l) = nf" and n: "n = nat nf"
    and cs: "\<And>j. j < n \<Longrightarrow> c_string (text j)"
  shows "holds_fields nf text (l_row l)"
proof -
  from rf have tk: "take (field_offset text n) (payload (l_row l)) = packed text n"
    and fl: "\<And>i. r_fields (l_row l) i = (if i < n then Some (field_offset text i) else None)"
    by (simp_all add: row_filled_def)
  have "r_fields (l_row l) j = Some (field_offset text j)
      \<and> take (length (text j) + 1) (drop (field_offset text j) (payload (l_row l)))
          = map Some (text j) @ [Some NUL]
      \<and> read_field (payload (l_row l)) (field_offset text j) = Some (text j)"
    if "j < n" for j
    using that fl [of j] slice_packed [OF that tk] read_field_packed [OF that cs [OF that] tk]
    by simp
  with nf n show ?thesis by (simp add: holds_fields_def)
qed

lemma push_checked_Inr:
  assumes "push_checked e (w, l) = Inr (w', l')"
  shows "push_row e w (l_rb l) (l_row l) (multiline_row l) = Some (w', Some (l_rb l'))"
  using assms by (auto simp: push_checked_def split: option.splits)

lemma store_header_summary:
  assumes run: "store_header e opts (w, l) = Inr (w', l')"
    and cs: "\<And>j. j < nat (PQnfields e) \<Longrightarrow> c_string (PQfname e j)"
  shows "\<exists>w2 r ml. heap w2 = heap w
           \<and> push_row e w2 (l_rb l) r ml = Some (w', Some (l_rb l'))
           \<and> holds_fields (PQnfields e) (PQfname e) r
           \<and> (\<forall>i. widths (pdesc w') i =
                 (if i < nat (PQnfields e) then display_width e opts (PQfname e i)
                  else widths (pdesc w) i))"
proof -
  from run obtain w1 l1 w2 l2 where
    1: "new_row e (PQnfields e) (PQfname e) (w, l) = Inr (w1, l1)" and
    2: "for_loop [0..<nat (PQnfields e)] (header_field e opts) (w1, l1) = Inr (w2, l2)" and
    3: "push_checked e (w2, l2) = Inr (w', l')"
    by (auto simp: store_header_def split: sum.splits)
  note a = new_row_start [OF 1]
  from a have st: "row_filled (PQfname e) 0 l1" by simp
  note b = header_loop [OF 2 st cs]
  from a b have h: "heap w2 = heap w"
    by (metis world.select_convs(1) world.surjective world.update_convs(2) world.update_convs(7))
  have hf: "holds_fields (PQnfields e) (PQfname e) (l_row l2)"
    using a b cs by (intro row_filled_holds) auto
  from push_checked_Inr [OF 3] a b
  have p: "push_row e w2 (l_rb l) (l_row l2) (multiline_row l2) = Some (w', Some (l_rb l'))" by simp
  from push_row_pdesc [OF p] a b
  have "\<forall>i. widths (pdesc w') i =
                 (if i < nat (PQnfields e) then display_width e opts (PQfname e i)
                  else widths (pdesc w) i)" by simp
  with h hf p show ?thesis by blast
qed

lemma store_tuple_summary:
  assumes run: "store_tuple e opts k (w, l) = Inr (w', l')"
    and cs: "\<And>j. j < nat (PQnfields e) \<Longrightarrow> c_string (PQgetvalue e k j)"
  shows "\<exists>w2 r ml. heap w2 = heap w
           \<and> push_row e w2 (l_rb l) r ml = Some (w', Some (l_rb l'))
           \<and> holds_fields (PQnfields e) (PQgetvalue e k) r
           \<and> (\<forall>i. widths (pdesc w') i =
                 (if i < nat (PQnfields e)
                  then max_int (widths (pdesc w) i) (display_width e opts (PQgetvalue e k i))
                  else widths (pdesc w) i))"
proof -
  from run obtain w1 l1 w2 l2 where
    1: "new_row e (PQnfields e) (PQgetvalue e k) (w, l) = Inr (w1, l1)" and
    2: "for_loop [0..<nat (PQnfields e)] (data_field e opts k) (w1, l1) = Inr (w2, l2)" and
    3: "push_checked e (w2, l2) = Inr (w', l')"
    by (auto simp: store_tuple_def split: sum.splits)
  note a = new_row_start [OF 1]
  from a have st: "row_filled (PQgetvalue e k) 0 l1" by simp
  note b = data_loop [OF 2 st cs]
  from a b have h: "heap w2 = heap w"
    by (metis world.select_convs(1) world.surjective world.update_convs(2) world.update_convs(7))
  have hf: "holds_fields (PQnfields e) (PQgetvalue e k) (l_row l2)"
    using a b cs by (intro row_filled_holds) auto
  from push_checked_Inr [OF 3] a b
  have p: "push_row e w2 (l_rb l) (l_row l2) (multiline_row l2) = Some (w', Some (l_rb l'))" by simp
  from push_row_pdesc [OF p] a b
  have "\<forall>i. widths (pdesc w') i =
                 (if i < nat (PQnfields e)
                  then max_int (widths (pdesc w) i) (display_width e opts (PQgetvalue e k i))
                  else widths (pdesc w) i)" by simp
  with h hf p show ?thesis by blast
qed

lemma c_source_fname: "c_source e \<Longrightarrow> j < nat (PQnfields e) \<Longrightarrow> c_string (PQfname e j)"
  by (simp add: c_source_def list_all_iff)

lemma c_source_getvalue:
  "c_source e \<Longrightarrow> k < nat (PQntuples e) \<Longrightarrow> j < nat (PQnfields e) \<Longrightarrow> c_string (PQgetvalue e k j)"
  by (simp add: c_source_def list_all_iff)

lemma sample_c_source: "c_source sample_env"
  by code_simp

subsection \<open>The column widths\<close>

lemma max_int_max: "max_int a b = max a b"
  by (simp add: max_int_def max_def)

lemma column_width_Max:
  "column_width e opts i k =
     Max (insert (display_width e opts (PQfname e i))
            ((\<lambda>k. display_width e opts (PQgetvalue e k i)) ` {..<k}))"
proof (induction k)
  case 0
  show ?case by simp
next
  case (Suc k)
  let ?A = "insert (display_width e opts (PQfname e i))
            ((\<lambda>k. display_width e opts (PQgetvalue e k i)) ` {..<k})"
  have "insert (display_width e opts (PQfname e i))
            ((\<lambda>k. display_width e opts (PQgetvalue e k i)) ` {..<Suc k})
        = insert (display_width e opts (PQgetvalue e k i)) ?A"
    by (auto simp: lessThan_Suc)
  moreover have "Max (insert (display_width e opts (PQgetvalue e k i)) ?A)
        = max (display_width e opts (PQgetvalue e k i)) (Max ?A)"
    by (rule Max_insert) auto
  ultimately show ?case
    using Suc.IH by (simp add: max_int_max max.commute)
qed

lemma pipeline_widths:
  assumes run: "pg_exec_query e opts rb0 mc0 w0 = Return True w'"
    and cs: "c_source e" and i: "i < nat (PQnfields e)"
  shows "widths (pdesc w') i = column_width e opts i (nat (PQntuples e))"
proof -
  from run obtain wh lh w5 l5 where
    h: "store_header e opts (header_world e rb0 w0, entry_locals rb0 mc0) = Inr (wh, lh)" and
    t: "for_loop [0..<nat (PQntuples e)] (store_tuple e opts) (wh, lh) = Inr (w5, l5)" and
    w': "w' = (PQfinish (PQclear w5))\<lparr>err := None\<rparr>"
    by (rule pg_exec_query_success)
  let ?I = "\<lambda>k s. \<forall>i<nat (PQnfields e). widths (pdesc (fst s)) i = column_width e opts i k"
  have "?I (nat (PQntuples e)) (w5, l5)"
  proof (rule for_loop_upt_Inr [OF t, where I = ?I])
    from store_header_summary [OF h c_source_fname [OF cs]]
    show "?I 0 (wh, lh)" by auto
  next
    fix k s s'
    assume k: "k < nat (PQntuples e)" and I: "?I k s" and b: "store_tuple e opts k s = Inr s'"
    obtain wa la where s: "s = (wa, la)" by (cases s)
    obtain wb lb where s': "s' = (wb, lb)" by (cases s')
    from store_tuple_summary [OF b [unfolded s s'] c_source_getvalue [OF cs k]] I
    show "?I (Suc k) s'" by (auto simp: s s')
  qed
  with i show ?thesis by (simp add: w' PQclear_def PQfinish_def)
qed

text \<open>
  C2. When \<^verbatim>\<open>pg_exec_query\<close> returns \<open>true\<close> for a source of C strings,
  \<^verbatim>\<open>pdesc->widths[i]\<close> of every column \<open>i\<close> below the column count is the maximum of the
  widths \<^verbatim>\<open>field_info\<close> computes for the column's name and for its value in every tuple.
\<close>

theorem column_width_is_maximum:
  assumes "pg_exec_query e opts rb0 mc0 w0 = Return True w'"
    and "c_source e" and "i < nat (PQnfields e)"
  shows "widths (pdesc w') i =
     Max (insert (display_width e opts (PQfname e i))
            ((\<lambda>k. display_width e opts (PQgetvalue e k i)) ` {..<nat (PQntuples e)}))"
  using pipeline_widths [OF assms] by (simp add: column_width_Max)

theorem column_width_is_maximum_witness:
  "\<exists>w'. pg_exec_query sample_env sample_opts 0 False sample_world = Return True w'
      \<and> widths (pdesc w') 0 = 2 \<and> widths (pdesc w') 1 = 6"
proof -
  from sample_run obtain w' where
    r: "pg_exec_query sample_env sample_opts 0 False sample_world = Return True w'"
    by (auto split: outcome.splits)
  have n: "0 < nat (PQnfields sample_env)" "1 < nat (PQnfields sample_env)"
    by (simp_all add: sample_env_def)
  have "widths (pdesc w') 0 = 2"
    using column_width_is_maximum [OF r sample_c_source n(1)]
    by (simp add: sample_env_def sample_opts_def display_width_def field_info_def lessThan_Suc numeral_2_eq_2)
  moreover have "widths (pdesc w') 1 = 6"
    using column_width_is_maximum [OF r sample_c_source n(2)]
    by (simp add: sample_env_def sample_opts_def display_width_def field_info_def lessThan_Suc numeral_2_eq_2)
  ultimately show ?thesis using r by blast
qed

subsection \<open>The records of the store\<close>

lemma store_holds_push:
  assumes inv: "chain_inv (heap w) bs" and hd: "hd bs = rb0" and tl: "last bs = rb"
    and len: "length (store_records (heap w) bs) = k"
    and old: "\<forall>m<k. \<exists>r. store_records (heap w) bs ! m = Some r
                    \<and> holds_fields (PQnfields e) (record_text e m) r"
    and hw: "heap w2 = heap w"
    and push: "push_row e w2 rb r ml = Some (w', Some t)"
    and new: "holds_fields (PQnfields e) (record_text e k) r"
  shows "store_holds e rb0 k (w', l\<lparr>l_rb := t\<rparr>)"
proof -
  let ?bs = "if nrows (heap w2 ! last bs) < 1000 then bs else bs @ [t]"
  from inv hw have inv2: "chain_inv (heap w2) bs" by simp
  from push tl have push2: "push_row e w2 (last bs) r ml = Some (w', Some t)" by simp
  note st = push_row_step [OF inv2 push2]
  from st have c: "chain_inv (heap w') ?bs"
    and rec: "store_records (heap w') ?bs = store_records (heap w) bs @ [Some r]"
    by (simp_all add: hw)
  from inv have ne: "bs \<noteq> []" by (simp add: chain_inv_def)
  from st have t: "last ?bs = t" by (auto split: if_splits)
  from ne hd have h: "hd ?bs = rb0" by simp
  have "\<exists>r'. store_records (heap w') ?bs ! m = Some r'
                    \<and> holds_fields (PQnfields e) (record_text e m) r'" if "m \<le> k" for m
  proof (cases "m < k")
    case True
    with old len show ?thesis by (simp add: rec nth_append)
  next
    case False
    with that have "m = k" by simp
    with len new show ?thesis by (simp add: rec nth_append)
  qed
  with c t h len show ?thesis
    unfolding store_holds_def by (intro exI [of _ ?bs]) (simp add: rec)
qed

lemma header_world_chain:
  assumes "rb0 < length (heap w0)"
  shows "chain_inv (heap (header_world e rb0 w0)) [rb0]"
    and "store_records (heap (header_world e rb0 w0)) [rb0] = []"
  using assms by (simp_all add: chain_inv_def header_world_def store_records_def bucket_records_def)

lemma store_header_holds:
  assumes v: "rb0 < length (heap w0)"
    and h: "store_header e opts (header_world e rb0 w0, entry_locals rb0 mc0) = Inr (wh, lh)"
    and cs: "\<And>j. j < nat (PQnfields e) \<Longrightarrow> c_string (PQfname e j)"
  shows "store_holds e rb0 0 (wh, lh)"
proof -
  let ?w = "header_world e rb0 w0"
  from store_header_summary [OF h cs] obtain w2 r ml where
    hw: "heap w2 = heap ?w" and
    p: "push_row e w2 (l_rb (entry_locals rb0 mc0)) r ml = Some (wh, Some (l_rb lh))" and
    hf: "holds_fields (PQnfields e) (PQfname e) r" by blast
  have len: "length (store_records (heap ?w) [rb0]) = 0"
    using header_world_chain(2) [OF v] by simp
  from store_holds_push [OF header_world_chain(1) [OF v] _ _ len _ hw, of rb0 rb0 e r ml wh "l_rb lh" lh] p hf
  show ?thesis by (simp add: entry_locals_def)
qed

lemma store_tuple_holds:
  assumes I: "store_holds e rb0 k (w, l)"
    and b: "store_tuple e opts k (w, l) = Inr (w', l')"
    and cs: "\<And>j. j < nat (PQnfields e) \<Longrightarrow> c_string (PQgetvalue e k j)"
  shows "store_holds e rb0 (Suc k) (w', l')"
proof -
  from I obtain bs where inv: "chain_inv (heap w) bs" and hd: "hd bs = rb0"
    and tl: "last bs = l_rb l" and len: "length (store_records (heap w) bs) = Suc k"
    and old: "\<forall>m<Suc k. \<exists>r. store_records (heap w) bs ! m = Some r
                    \<and> holds_fields (PQnfields e) (record_text e m) r"
    by (auto simp: store_holds_def less_Suc_eq_le)
  from store_tuple_summary [OF b cs] obtain w2 r ml where
    hw: "heap w2 = heap w" and
    p: "push_row e w2 (l_rb l) r ml = Some (w', Some (l_rb l'))" and
    hf: "holds_fields (PQnfields e) (PQgetvalue e k) r" by blast
  from store_holds_push [OF inv hd tl len old hw p, of l'] hf
  show ?thesis by simp
qed

lemma pipeline_store:
  assumes run: "pg_exec_query e opts rb0 mc0 w0 = Return True w'" and cs: "c_source e"
  shows "\<exists>l. store_holds e rb0 (nat (PQntuples e)) (w', l)"
proof -
  from run obtain wh lh w5 l5 where
    v: "rb0 < length (heap w0)" and
    h: "store_header e opts (header_world e rb0 w0, entry_locals rb0 mc0) = Inr (wh, lh)" and
    t: "for_loop [0..<nat (PQntuples e)] (store_tuple e opts) (wh, lh) = Inr (w5, l5)" and
    w': "w' = (PQfinish (PQclear w5))\<lparr>err := None\<rparr>"
    by (rule pg_exec_query_success)
  have "store_holds e rb0 (nat (PQntuples e)) (w5, l5)"
  proof (rule for_loop_upt_Inr [OF t, where I = "store_holds e rb0"])
    show "store_holds e rb0 0 (wh, lh)"
      by (rule store_header_holds [OF v h c_source_fname [OF cs]])
  next
    fix k and s s' :: "world \<times> locals"
    assume k: "k < nat (PQntuples e)" and I: "store_holds e rb0 k s"
      and b: "store_tuple e opts k s = Inr s'"
    from store_tuple_holds [OF _ _ c_source_getvalue [OF cs k], of rb0 "fst s" "snd s" opts "fst s'" "snd s'"] I b
    show "store_holds e rb0 (Suc k) s'" by simp
  qed
  then have "store_holds e rb0 (nat (PQntuples e)) (w', l5)"
    by (simp add: store_holds_def w' PQclear_def PQfinish_def)
  then show ?thesis ..
qed

text \<open>
  C6. When \<^verbatim>\<open>pg_exec_query\<close> returns \<open>true\<close> for a source of C strings, the chain of
  buckets from the caller's bucket holds, in insertion order, one record for the header
  and one per tuple. Each record has the column count as its field count; its pointer \<open>j\<close>
  is the offset at which field \<open>j\<close> was copied, which is where field \<open>j - 1\<close> and its
  terminator end; the bytes from that offset up to the offset of the next field are the
  text supplied for field \<open>j\<close> (the column name for the header, the value of the tuple
  otherwise) and one NUL; and the C string read at that pointer, which stops at the first
  NUL, is exactly that text. So a read ends at the field's own terminator, the byte before
  the next field starts.
\<close>

theorem stored_fields_round_trip:
  assumes "pg_exec_query e opts rb0 mc0 w0 = Return True w'" and "c_source e"
  shows "\<exists>bs. chain (heap w') (Some rb0) bs
           \<and> length (store_records (heap w') bs) = Suc (nat (PQntuples e))
           \<and> (\<forall>m\<le>nat (PQntuples e). \<exists>r.
                 store_records (heap w') bs ! m = Some r \<and> r_nfields r = PQnfields e
                 \<and> (\<forall>j<nat (PQnfields e).
                       r_fields r j = Some (field_offset (record_text e m) j)
                       \<and> take (length (record_text e m j) + 1)
                             (drop (field_offset (record_text e m) j) (payload r))
                           = map Some (record_text e m j) @ [Some NUL]
                       \<and> read_field (payload r) (field_offset (record_text e m) j)
                           = Some (record_text e m j)))"
proof -
  from pipeline_store [OF assms] obtain bs where
    "chain_inv (heap w') bs" "hd bs = rb0"
    "length (store_records (heap w') bs) = Suc (nat (PQntuples e))"
    "\<forall>m\<le>nat (PQntuples e). \<exists>r. store_records (heap w') bs ! m = Some r
                    \<and> holds_fields (PQnfields e) (record_text e m) r"
    by (auto simp: store_holds_def)
  then show ?thesis
    by (intro exI [of _ bs]) (auto simp: chain_inv_def holds_fields_def)
qed

theorem stored_fields_round_trip_witness:
  "\<exists>w' bs r0 r2. pg_exec_query sample_env sample_opts 0 False sample_world = Return True w'
      \<and> chain (heap w') (Some 0) bs \<and> length (store_records (heap w') bs) = 3
      \<and> store_records (heap w') bs ! 0 = Some r0 \<and> r_nfields r0 = 2
      \<and> r_fields r0 0 = Some 0 \<and> read_field (payload r0) 0 = Some ''id''
      \<and> r_fields r0 1 = Some 3 \<and> read_field (payload r0) 3 = Some ''name''
      \<and> store_records (heap w') bs ! 2 = Some r2 \<and> r_nfields r2 = 2
      \<and> r_fields r2 0 = Some 0 \<and> read_field (payload r2) 0 = Some ''22''
      \<and> r_fields r2 1 = Some 3 \<and> read_field (payload r2) 3 = Some ''Robert''"
proof -
  from sample_run obtain w' where
    r: "pg_exec_query sample_env sample_opts 0 False sample_world = Return True w'"
    by (auto split: outcome.splits)
  have nt: "nat (PQntuples sample_env) = 2" and nf: "nat (PQnfields sample_env) = 2"
    and nfi: "PQnfields sample_env = 2"
    by (simp_all add: sample_env_def)
  from stored_fields_round_trip [OF r sample_c_source] obtain bs where
    c: "chain (heap w') (Some 0) bs" and
    len: "length (store_records (heap w') bs) = Suc (nat (PQntuples sample_env))" and
    all: "\<And>m. m \<le> nat (PQntuples sample_env) \<Longrightarrow> \<exists>r.
                 store_records (heap w') bs ! m = Some r \<and> r_nfields r = PQnfields sample_env
                 \<and> (\<forall>j<nat (PQnfields sample_env).
                       r_fields r j = Some (field_offset (record_text sample_env m) j)
                       \<and> read_field (payload r) (field_offset (record_text sample_env m) j)
                           = Some (record_text sample_env m j))"
    by blast
  from all [of 0] obtain r0 where
    r0: "store_records (heap w') bs ! 0 = Some r0" "r_nfields r0 = 2"
      "\<And>j. j < 2 \<Longrightarrow> r_fields r0 j = Some (field_offset (PQfname sample_env) j)
            \<and> read_field (payload r0) (field_offset (PQfname sample_env) j) = Some (PQfname sample_env j)"
    by (auto simp: nt nf nfi)
  from all [of "Suc (Suc 0)"] obtain r2 where
    r2: "store_records (heap w') bs ! 2 = Some r2" "r_nfields r2 = 2"
      "\<And>j. j < 2 \<Longrightarrow> r_fields r2 j = Some (field_offset (PQgetvalue sample_env 1) j)
            \<and> read_field (payload r2) (field_offset (PQgetvalue sample_env 1) j) = Some (PQgetvalue sample_env 1 j)"
    by (auto simp: nt nf nfi numeral_2_eq_2)
  from r0(3) [of 0] r0(3) [of "Suc 0"] r2(3) [of 0] r2(3) [of "Suc 0"]
  have f: "r_fields r0 0 = Some 0" "read_field (payload r0) 0 = Some ''id''"
      "r_fields r0 1 = Some 3" "read_field (payload r0) 3 = Some ''name''"
      "r_fields r2 0 = Some 0" "read_field (payload r2) 0 = Some ''22''"
      "r_fields r2 1 = Some 3" "read_field (payload r2) 3 = Some ''Robert''"
    by (simp_all add: sample_env_def numeral_3_eq_3)
  from len have "length (store_records (heap w') bs) = 3" by (simp add: nt)
  with r c r0(1,2) r2(1,2) f show ?thesis by blast
qed

subsection \<open>Calls that return \<open>true\<close>, and the limit on the columns\<close>

lemma add_size_exact:
  assumes "0 \<le> sz" and "sz + int (length s) + 1 < 2 ^ 31"
  shows "add_size sz s = sz + int (length s) + 1"
proof -
  have a: "to_size_t sz = sz" using assms by (simp add: to_size_t_def)
  have b: "(sz + (int (length s) + 1)) mod 2 ^ 64 = sz + (int (length s) + 1)"
    using assms by simp
  have c: "to_int (sz + (int (length s) + 1)) = sz + (int (length s) + 1)"
    using assms by (simp add: to_int_def)
  show ?thesis by (simp only: add_size_def a b c add.assoc)
qed

lemma row_size_exact:
  assumes "int (field_offset text (nat nf)) < 2 ^ 31"
  shows "row_size nf text = int (field_offset text (nat nf))"
proof -
  have "fold (\<lambda>j sz. add_size sz (text j)) [0..<k] 0 = int (field_offset text k)"
    if "k \<le> nat nf" for k
    using that
  proof (induction k)
    case 0
    show ?case by simp
  next
    case (Suc k)
    from field_offset_mono [OF Suc.prems, of "text"] assms
    have "int (field_offset text (Suc k)) < 2 ^ 31" by simp
    with Suc show ?case by (simp add: add_size_exact)
  qed
  then show ?thesis by (simp add: row_size_def)
qed

lemma to_size_t_exact: "0 \<le> n \<Longrightarrow> n < 2 ^ 31 \<Longrightarrow> nat (to_size_t n) = nat n"
  by (simp add: to_size_t_def)

lemma for_loop_upt_total:
  assumes "I 0 s"
    and "\<And>i s. i < n \<Longrightarrow> I i s \<Longrightarrow> \<exists>s'. body i s = Inr s'"
    and "\<And>i s s'. i < n \<Longrightarrow> I i s \<Longrightarrow> body i s = Inr s' \<Longrightarrow> I (Suc i) s'"
  shows "\<exists>s'. for_loop [0..<n] body s = Inr s' \<and> I n s'"
proof -
  have "case for_loop [0..<n] body s of Inl out \<Rightarrow> False | Inr s' \<Rightarrow> I n s'"
  proof (rule for_loop_upt_rule [where I = I])
    show "I 0 s" by fact
  next
    fix i s s' assume "i < n" "I i s" "body i s = Inr s'"
    then show "I (Suc i) s'" by (rule assms(3))
  next
    fix i s out assume "i < n" "I i s" "body i s = Inl out"
    with assms(2) [of i s] show False by auto
  qed
  then show ?thesis by (cases "for_loop [0..<n] body s") auto
qed

lemma copy_field_total:
  assumes "row_filled text j l" and "c_string (text j)"
    and "field_offset text (Suc j) \<le> length (payload (l_row l))"
  shows "\<exists>l'. copy_field j (text j) l = Some (l', text j)"
proof -
  from assms(1) have lb: "locbuf l = field_offset text j" by (simp add: row_filled_def)
  show ?thesis
    using assms(2,3) lb
    by (simp add: copy_field_def strcpy_def read_field_def c_str_copy)
qed

lemma new_row_total:
  assumes "malloc_ok e (mallocs w)" and "malloc_ok e (Suc (mallocs w))"
  shows "\<exists>w1 l1. new_row e nf text (w, l) = Inr (w1, l1)
           \<and> length (payload (l_row l1)) = nat (to_size_t (row_size nf text))"
  using assms by (simp add: new_row_def malloc_def)

lemma header_field_total:
  assumes "row_filled (PQfname e) j l" and "c_string (PQfname e j)"
    and "field_offset (PQfname e) (Suc j) \<le> length (payload (l_row l))"
  shows "\<exists>w' l'. header_field e opts j (w, l) = Inr (w', l')
           \<and> length (payload (l_row l')) = length (payload (l_row l))"
proof -
  from copy_field_total [OF assms] obtain l1 where
    cp: "copy_field j (PQfname e j) l = Some (l1, PQfname e j)" ..
  from copy_field_step [OF assms(1,2) cp] cp show ?thesis
    by (auto simp: header_field_def split: prod.splits)
qed

lemma data_field_total:
  assumes "row_filled (PQgetvalue e k) j l" and "c_string (PQgetvalue e k j)"
    and "field_offset (PQgetvalue e k) (Suc j) \<le> length (payload (l_row l))"
  shows "\<exists>w' l'. data_field e opts k j (w, l) = Inr (w', l')
           \<and> length (payload (l_row l')) = length (payload (l_row l))"
proof -
  from copy_field_total [OF assms] obtain l1 where
    cp: "copy_field j (PQgetvalue e k j) l = Some (l1, PQgetvalue e k j)" ..
  from copy_field_step [OF assms(1,2) cp] cp show ?thesis
    by (auto simp: data_field_def split: prod.splits)
qed

lemma header_loop_total:
  assumes start: "row_filled (PQfname e) 0 l"
    and fits: "field_offset (PQfname e) n \<le> length (payload (l_row l))"
    and cs: "\<And>j. j < n \<Longrightarrow> c_string (PQfname e j)"
  shows "\<exists>w' l'. for_loop [0..<n] (header_field e opts) (w, l) = Inr (w', l')"
proof -
  let ?I = "\<lambda>j s. row_filled (PQfname e) j (snd s)
                \<and> length (payload (l_row (snd s))) = length (payload (l_row l))"
  have "\<exists>s'. for_loop [0..<n] (header_field e opts) (w, l) = Inr s' \<and> ?I n s'"
  proof (rule for_loop_upt_total [where I = ?I])
    show "?I 0 (w, l)" using start by simp
  next
    fix j and s :: "world \<times> locals" assume j: "j < n" and I: "?I j s"
    from j have "field_offset (PQfname e) (Suc j) \<le> field_offset (PQfname e) n"
      by (intro field_offset_mono) simp
    with fits I have "field_offset (PQfname e) (Suc j) \<le> length (payload (l_row (snd s)))" by simp
    from header_field_total [OF _ cs [OF j] this, of opts "fst s"] I
    show "\<exists>s'. header_field e opts j s = Inr s'" by auto
  next
    fix j and s s' :: "world \<times> locals" assume j: "j < n" and I: "?I j s" and b: "header_field e opts j s = Inr s'"
    from j have "field_offset (PQfname e) (Suc j) \<le> field_offset (PQfname e) n"
      by (intro field_offset_mono) simp
    with fits I have f: "field_offset (PQfname e) (Suc j) \<le> length (payload (l_row (snd s)))" by simp
    from header_field_total [OF _ cs [OF j] f, of opts "fst s"] I b
    have "length (payload (l_row (snd s'))) = length (payload (l_row (snd s)))" by auto
    moreover from header_field_step [OF _ cs [OF j], of "snd s" opts "fst s" "fst s'" "snd s'"] I b
    have "row_filled (PQfname e) (Suc j) (snd s')" by simp
    ultimately show "?I (Suc j) s'" using I by simp
  qed
  then show ?thesis by auto
qed

lemma data_loop_total:
  assumes start: "row_filled (PQgetvalue e k) 0 l"
    and fits: "field_offset (PQgetvalue e k) n \<le> length (payload (l_row l))"
    and cs: "\<And>j. j < n \<Longrightarrow> c_string (PQgetvalue e k j)"
  shows "\<exists>w' l'. for_loop [0..<n] (data_field e opts k) (w, l) = Inr (w', l')"
proof -
  let ?I = "\<lambda>j s. row_filled (PQgetvalue e k) j (snd s)
                \<and> length (payload (l_row (snd s))) = length (payload (l_row l))"
  have "\<exists>s'. for_loop [0..<n] (data_field e opts k) (w, l) = Inr s' \<and> ?I n s'"
  proof (rule for_loop_upt_total [where I = ?I])
    show "?I 0 (w, l)" using start by simp
  next
    fix j and s :: "world \<times> locals" assume j: "j < n" and I: "?I j s"
    from j have "field_offset (PQgetvalue e k) (Suc j) \<le> field_offset (PQgetvalue e k) n"
      by (intro field_offset_mono) simp
    with fits I have "field_offset (PQgetvalue e k) (Suc j) \<le> length (payload (l_row (snd s)))" by simp
    from data_field_total [OF _ cs [OF j] this, of opts "fst s"] I
    show "\<exists>s'. data_field e opts k j s = Inr s'" by auto
  next
    fix j and s s' :: "world \<times> locals" assume j: "j < n" and I: "?I j s" and b: "data_field e opts k j s = Inr s'"
    from j have "field_offset (PQgetvalue e k) (Suc j) \<le> field_offset (PQgetvalue e k) n"
      by (intro field_offset_mono) simp
    with fits I have f: "field_offset (PQgetvalue e k) (Suc j) \<le> length (payload (l_row (snd s)))" by simp
    from data_field_total [OF _ cs [OF j] f, of opts "fst s"] I b
    have "length (payload (l_row (snd s'))) = length (payload (l_row (snd s)))" by auto
    moreover from data_field_step [OF _ cs [OF j], of "snd s" opts "fst s" "fst s'" "snd s'"] I b
    have "row_filled (PQgetvalue e k) (Suc j) (snd s')" by simp
    ultimately show "?I (Suc j) s'" using I by simp
  qed
  then show ?thesis by auto
qed

lemma push_checked_total:
  assumes inv: "chain_inv (heap w) bs" and tl: "last bs = l_rb l" and ok: "\<And>n. malloc_ok e n"
  shows "\<exists>w' l'. push_checked e (w, l) = Inr (w', l')"
proof -
  from inv have ne: "bs \<noteq> []" and ch: "chain (heap w) (Some (hd bs)) bs"
    and lo: "0 \<le> nrows (heap w ! last bs)" by (simp_all add: chain_inv_def)
  from ne have "last bs \<in> set bs" by simp
  with ch have lv: "last bs < length (heap w)" by (rule chain_valid)
  show ?thesis
  proof (cases "nrows (heap w ! last bs) < 1000")
    case True
    from push_row_room [OF lv lo True, of e "l_row l" "multiline_row l"] tl
    show ?thesis by (simp add: push_checked_def)
  next
    case False
    then have "1000 \<le> nrows (heap w ! last bs)" by simp
    from push_row_full [OF lv this ok, of "l_row l" "multiline_row l"] tl
    show ?thesis by (simp add: push_checked_def)
  qed
qed

lemma store_row_total:
  assumes inv: "chain_inv (heap w) bs" and tl: "last bs = l_rb l"
    and ok: "\<And>n. malloc_ok e n"
    and fit: "int (field_offset tx (nat nf)) < 2 ^ 31"
  shows "\<exists>w1 l1. new_row e nf tx (w, l) = Inr (w1, l1) \<and> row_filled tx 0 l1
           \<and> field_offset tx (nat nf) \<le> length (payload (l_row l1))
           \<and> chain_inv (heap w1) bs \<and> last bs = l_rb l1"
proof -
  from new_row_total [OF ok ok, of nf tx w l] obtain w1 l1 where
    n: "new_row e nf tx (w, l) = Inr (w1, l1)" and
    len: "length (payload (l_row l1)) = nat (to_size_t (row_size nf tx))" by blast
  from row_size_exact [OF fit] fit have "length (payload (l_row l1)) = field_offset tx (nat nf)"
    by (simp add: len to_size_t_exact)
  moreover from new_row_start [OF n] inv tl
  have "row_filled tx 0 l1" "chain_inv (heap w1) bs" "last bs = l_rb l1" by simp_all
  ultimately show ?thesis using n by simp
qed

lemma store_header_total:
  assumes inv: "chain_inv (heap w) bs" and tl: "last bs = l_rb l"
    and ok: "\<And>n. malloc_ok e n"
    and fit: "int (field_offset (PQfname e) (nat (PQnfields e))) < 2 ^ 31"
    and cs: "\<And>j. j < nat (PQnfields e) \<Longrightarrow> c_string (PQfname e j)"
  shows "\<exists>w' l'. store_header e opts (w, l) = Inr (w', l')"
proof -
  from store_row_total [OF inv tl ok fit] obtain w1 l1 where
    1: "new_row e (PQnfields e) (PQfname e) (w, l) = Inr (w1, l1)" and
    st: "row_filled (PQfname e) 0 l1" and
    le: "field_offset (PQfname e) (nat (PQnfields e)) \<le> length (payload (l_row l1))" and
    inv1: "chain_inv (heap w1) bs" and tl1: "last bs = l_rb l1" by blast
  from header_loop_total [OF st le cs, of opts w1] obtain w2 l2 where
    2: "for_loop [0..<nat (PQnfields e)] (header_field e opts) (w1, l1) = Inr (w2, l2)" by blast
  from header_loop [OF 2 st cs] have "heap w2 = heap w1" "l_rb l2 = l_rb l1"
    by (simp, metis world.select_convs(1) world.surjective world.update_convs(2), simp)
  with inv1 tl1 have "chain_inv (heap w2) bs" "last bs = l_rb l2" by simp_all
  from push_checked_total [OF this ok] obtain w' l' where
    "push_checked e (w2, l2) = Inr (w', l')" by blast
  with 1 2 show ?thesis by (simp add: store_header_def)
qed

lemma store_tuple_total:
  assumes inv: "chain_inv (heap w) bs" and tl: "last bs = l_rb l"
    and ok: "\<And>n. malloc_ok e n"
    and fit: "int (field_offset (PQgetvalue e k) (nat (PQnfields e))) < 2 ^ 31"
    and cs: "\<And>j. j < nat (PQnfields e) \<Longrightarrow> c_string (PQgetvalue e k j)"
  shows "\<exists>w' l'. store_tuple e opts k (w, l) = Inr (w', l')"
proof -
  from store_row_total [OF inv tl ok fit] obtain w1 l1 where
    1: "new_row e (PQnfields e) (PQgetvalue e k) (w, l) = Inr (w1, l1)" and
    st: "row_filled (PQgetvalue e k) 0 l1" and
    le: "field_offset (PQgetvalue e k) (nat (PQnfields e)) \<le> length (payload (l_row l1))" and
    inv1: "chain_inv (heap w1) bs" and tl1: "last bs = l_rb l1" by blast
  from data_loop_total [OF st le cs, of opts w1] obtain w2 l2 where
    2: "for_loop [0..<nat (PQnfields e)] (data_field e opts k) (w1, l1) = Inr (w2, l2)" by blast
  from data_loop [OF 2 st cs] have "heap w2 = heap w1" "l_rb l2 = l_rb l1"
    by (simp, metis world.select_convs(1) world.surjective world.update_convs(2), simp)
  with inv1 tl1 have "chain_inv (heap w2) bs" "last bs = l_rb l2" by simp_all
  from push_checked_total [OF this ok] obtain w' l' where
    "push_checked e (w2, l2) = Inr (w', l')" by blast
  with 1 2 show ?thesis by (simp add: store_tuple_def)
qed

lemma sizes_fit_record:
  "sizes_fit e \<Longrightarrow> m \<le> nat (PQntuples e) \<Longrightarrow>
   int (field_offset (record_text e m) (nat (PQnfields e))) < 2 ^ 31"
  by (auto simp: sizes_fit_def list_all_iff le_eq_less_or_eq)

text \<open>
  Totality: with a connection, a tabular result of at most 1024 columns, C strings whose
  rows stay below 2 GiB, and allocations that succeed, the call returns \<open>true\<close> with result
  and connection released and \<^verbatim>\<open>*err\<close> NULL.
\<close>

lemma pg_exec_query_returns:
  assumes v: "rb0 < length (heap w0)" and c: "PQstatus_ok e" and r: "PQresultStatus_ok e"
    and n: "PQnfields e \<le> 1024" and cs: "c_source e" and fit: "sizes_fit e"
    and ok: "\<And>n. malloc_ok e n"
  shows "\<exists>w'. pg_exec_query e opts rb0 mc0 w0 = Return True w'
           \<and> err w' = None \<and> \<not> result_open w' \<and> \<not> conn_open w'"
proof -
  let ?w = "header_world e rb0 w0" and ?l = "entry_locals rb0 mc0"
  have "\<exists>wh lh. store_header e opts (?w, ?l) = Inr (wh, lh)"
    using sizes_fit_record [OF fit, of 0]
    by (intro store_header_total [OF header_world_chain(1) [OF v] _ ok _ c_source_fname [OF cs]])
      (simp_all add: entry_locals_def)
  then obtain wh lh where h: "store_header e opts (?w, ?l) = Inr (wh, lh)" by blast
  have "\<exists>s'. for_loop [0..<nat (PQntuples e)] (store_tuple e opts) (wh, lh) = Inr s'
           \<and> store_holds e rb0 (nat (PQntuples e)) s'"
  proof (rule for_loop_upt_total [where I = "store_holds e rb0"])
    show "store_holds e rb0 0 (wh, lh)"
      by (rule store_header_holds [OF v h c_source_fname [OF cs]])
  next
    fix k and s :: "world \<times> locals"
    assume k: "k < nat (PQntuples e)" and I: "store_holds e rb0 k s"
    from I obtain bs where "chain_inv (heap (fst s)) bs" "last bs = l_rb (snd s)"
      by (auto simp: store_holds_def)
    from store_tuple_total [OF this ok _ c_source_getvalue [OF cs k], of opts]
      sizes_fit_record [OF fit, of "Suc k"] k
    show "\<exists>s'. store_tuple e opts k s = Inr s'" by auto
  next
    fix k and s s' :: "world \<times> locals"
    assume k: "k < nat (PQntuples e)" and I: "store_holds e rb0 k s"
      and b: "store_tuple e opts k s = Inr s'"
    from store_tuple_holds [OF _ _ c_source_getvalue [OF cs k], of rb0 "fst s" "snd s" opts "fst s'" "snd s'"] I b
    show "store_holds e rb0 (Suc k) s'" by simp
  qed
  then obtain w5 l5 where
    t: "for_loop [0..<nat (PQntuples e)] (store_tuple e opts) (wh, lh) = Inr (w5, l5)" by auto
  from v c r n h t show ?thesis
    by (simp add: pg_exec_query_def Let_def header_world_def entry_locals_def PQclear_def PQfinish_def)
qed

lemma field_offset_bound:
  "(\<And>j. j < n \<Longrightarrow> length (tx j) \<le> L) \<Longrightarrow> field_offset tx n \<le> n * (L + 1)"
proof (induction n)
  case 0
  show ?case by simp
next
  case (Suc n)
  have "field_offset tx n \<le> n * (L + 1)" by (rule Suc.IH) (simp add: Suc.prems)
  moreover have "length (tx n) \<le> L" by (rule Suc.prems) simp
  ultimately show ?case by simp
qed

lemma wide_env_c_source: "c_source wide_env"
proof -
  have "c_string (PQfname wide_env j)" "c_string (PQgetvalue wide_env k j)" for k j
    by (simp_all add: wide_env_def sample_env_def c_string_def NUL_def)
  then show ?thesis
    unfolding c_source_def list_all_iff by blast
qed

lemma wide_env_sizes_fit: "sizes_fit wide_env"
proof -
  have n: "nat (PQnfields wide_env) = 1024"
    by (simp add: wide_env_def sample_env_def)
  have "length (record_text wide_env m j) \<le> 6" for m j
    by (cases m) (simp_all add: wide_env_def sample_env_def)
  then have "field_offset (record_text wide_env m) 1024 \<le> 1024 * (6 + 1)" for m
    by (intro field_offset_bound)
  then have "int (field_offset (record_text wide_env m) 1024) < 2 ^ 31" for m
    using le_less_trans [of "field_offset (record_text wide_env m) 1024" "1024 * (6 + 1)" 2147483648]
    by simp
  then show ?thesis
    unfolding sizes_fit_def list_all_iff n by blast
qed

text \<open>
  C5. With a connection and a tabular result: when the column count exceeds 1024,
  \<^verbatim>\<open>pg_exec_query\<close> releases result and connection and ends the process with
  \<open>too much columns\<close>; the caller's bucket is empty and unlinked, no bucket was added, no
  allocation was asked for and \<^verbatim>\<open>pdesc\<close> is untouched. A column count of at most 1024,
  so 1024 itself, never ends in that exit, and when the texts are C strings, the rows fit
  and the allocations succeed, the call returns \<open>true\<close>.
\<close>

theorem too_many_columns:
  assumes "rb0 < length (heap w0)" and "PQstatus_ok e" and "PQresultStatus_ok e"
  shows "(1024 < PQnfields e \<longrightarrow>
            (\<exists>w'. pg_exec_query e opts rb0 mc0 w0 = Leave_ncurses ''too much columns'' w'
               \<and> \<not> result_open w' \<and> \<not> conn_open w'
               \<and> length (heap w') = length (heap w0)
               \<and> nrows (heap w' ! rb0) = 0 \<and> next_bucket (heap w' ! rb0) = None
               \<and> mallocs w' = mallocs w0 \<and> pdesc w' = pdesc w0))
       \<and> (PQnfields e \<le> 1024 \<longrightarrow>
            (\<forall>w'. pg_exec_query e opts rb0 mc0 w0 \<noteq> Leave_ncurses ''too much columns'' w'))
       \<and> (PQnfields e \<le> 1024 \<and> c_source e \<and> sizes_fit e \<and> (\<forall>n. malloc_ok e n) \<longrightarrow>
            (\<exists>w'. pg_exec_query e opts rb0 mc0 w0 = Return True w'))"
proof (intro conjI impI allI)
  assume "1024 < PQnfields e"
  with assms show "\<exists>w'. pg_exec_query e opts rb0 mc0 w0 = Leave_ncurses ''too much columns'' w'
               \<and> \<not> result_open w' \<and> \<not> conn_open w'
               \<and> length (heap w') = length (heap w0)
               \<and> nrows (heap w' ! rb0) = 0 \<and> next_bucket (heap w' ! rb0) = None
               \<and> mallocs w' = mallocs w0 \<and> pdesc w' = pdesc w0"
    by (simp add: pg_exec_query_def RELEASE_AND_EXIT_def PQclear_def PQfinish_def Let_def)
next
  fix w'
  assume le: "PQnfields e \<le> 1024"
  show "pg_exec_query e opts rb0 mc0 w0 \<noteq> Leave_ncurses ''too much columns'' w'"
  proof
    assume eq: "pg_exec_query e opts rb0 mc0 w0 = Leave_ncurses ''too much columns'' w'"
    have "fatal_alloc (Leave_ncurses ''too much columns'' w')"
      using eq assms le
      by (auto simp: pg_exec_query_def Let_def split: sum.splits prod.splits
          dest: store_header_Inl for_loop_Inl [where P = fatal_alloc, OF _ store_tuple_Inl])
    then show False by (simp add: fatal_alloc_def)
  qed
next
  assume "PQnfields e \<le> 1024 \<and> c_source e \<and> sizes_fit e \<and> (\<forall>n. malloc_ok e n)"
  with pg_exec_query_returns [OF assms, of opts mc0]
  show "\<exists>w'. pg_exec_query e opts rb0 mc0 w0 = Return True w'" by blast
qed

theorem too_many_columns_witness:
  "(\<exists>w'. pg_exec_query (sample_env\<lparr>PQnfields := 1025\<rparr>) sample_opts 0 False sample_world
            = Leave_ncurses ''too much columns'' w'
        \<and> \<not> result_open w' \<and> \<not> conn_open w' \<and> length (heap w') = 1
        \<and> nrows (heap w' ! 0) = 0 \<and> next_bucket (heap w' ! 0) = None \<and> mallocs w' = 0)
   \<and> (\<forall>w'. pg_exec_query wide_env sample_opts 0 False sample_world
            \<noteq> Leave_ncurses ''too much columns'' w')
   \<and> (\<exists>w'. pg_exec_query wide_env sample_opts 0 False sample_world = Return True w')"
proof -
  have a: "0 < length (heap sample_world)" "PQstatus_ok wide_env" "PQresultStatus_ok wide_env"
    "PQnfields wide_env \<le> 1024" "\<forall>n. malloc_ok wide_env n"
    "PQstatus_ok (sample_env\<lparr>PQnfields := 1025\<rparr>)" "PQresultStatus_ok (sample_env\<lparr>PQnfields := 1025\<rparr>)"
    "1024 < PQnfields (sample_env\<lparr>PQnfields := 1025\<rparr>)"
    by (simp_all add: wide_env_def sample_env_def sample_world_def)
  from too_many_columns [OF a(1,6,7), of sample_opts False] a(8)
  have "\<exists>w'. pg_exec_query (sample_env\<lparr>PQnfields := 1025\<rparr>) sample_opts 0 False sample_world
            = Leave_ncurses ''too much columns'' w'
        \<and> \<not> result_open w' \<and> \<not> conn_open w' \<and> length (heap w') = 1
        \<and> nrows (heap w' ! 0) = 0 \<and> next_bucket (heap w' ! 0) = None \<and> mallocs w' = 0"
    by (auto simp: sample_world_def)
  moreover from too_many_columns [OF a(1,2,3), of sample_opts False] a(4,5)
    wide_env_c_source wide_env_sizes_fit
  have "(\<forall>w'. pg_exec_query wide_env sample_opts 0 False sample_world
            \<noteq> Leave_ncurses ''too much columns'' w')
      \<and> (\<exists>w'. pg_exec_query wide_env sample_opts 0 False sample_world = Return True w')"
    by blast
  ultimately show ?thesis by blast
qed

end
